theory Spec2Isabelle
  imports Main "HOL-Library.Word" "HOL-Library.Multiset" "HOL-Library.Sublist"
begin

section \<open>Data model\<close>

text \<open>
  The codec of \<^verbatim>\<open>interface.py\<close> works on Python \<^verbatim>\<open>bytes\<close>: a symbol is an
  8-bit value. Bit streams and codes are Python strings over the characters 0 and 1.
\<close>

type_synonym byte = "8 word"

text \<open>
  Python dictionaries keep their keys in insertion order, and the order in which
  \<^verbatim>\<open>Counter(data_bytes).items()\<close> lists the symbols decides the layout of the heap. A
  dictionary is therefore an association list with distinct keys: \<open>dict_set\<close> is the
  assignment \<^verbatim>\<open>d[k] = v\<close> (an existing key keeps its position, a new key goes to the
  end), \<open>dict_get\<close> is the lookup.
\<close>

type_synonym ('k, 'v) dict = "('k \<times> 'v) list"

fun dict_set :: "('k, 'v) dict \<Rightarrow> 'k \<Rightarrow> 'v \<Rightarrow> ('k, 'v) dict" where
  "dict_set [] k v = [(k, v)]"
| "dict_set ((k', v') # d) k v = (if k' = k then (k, v) # d else (k', v') # dict_set d k v)"

definition dict_get :: "('k, 'v) dict \<Rightarrow> 'k \<Rightarrow> 'v option" where
  "dict_get d k = map_of d k"

datatype error = IndexError | KeyError byte

text \<open>
  The class \<^verbatim>\<open>HuffmanNode\<close>: \<open>byte_val\<close> is \<open>None\<close> for an internal node, and the
  children are \<open>None\<close> until they are assigned. Frequencies are counts, so naturals.
\<close>

datatype HuffmanNode =
  HuffmanNode (byte_val: "byte option") (freq: nat)
    (left: "HuffmanNode option") (right: "HuffmanNode option")

text \<open>\<^verbatim>\<open>__lt__\<close>: nodes are compared by frequency alone.\<close>

definition node_lt :: "HuffmanNode \<Rightarrow> HuffmanNode \<Rightarrow> bool" where
  "node_lt a b = (freq a < freq b)"

section \<open>The binary heap of Python's heapq\<close>

text \<open>
  \<^verbatim>\<open>build_huffman_tree_from_bytes\<close> keeps its nodes in a list managed by the standard
  module \<^verbatim>\<open>heapq\<close>. The functions below follow CPython's \<^verbatim>\<open>heapq.py\<close>
  (\<^verbatim>\<open>_siftdown\<close>, \<^verbatim>\<open>_siftup\<close>, \<^verbatim>\<open>heapify\<close>, \<^verbatim>\<open>heappush\<close>, \<^verbatim>\<open>heappop\<close>) on a list
  used as an array; the only comparison is \<open>node_lt\<close>.

  \<^verbatim>\<open>_siftdown(heap, startpos, pos)\<close>: the item at \<open>pos\<close> moves towards the root while
  it is smaller than its parent. The loop carries the item and the position of the hole.
\<close>

function siftdown_loop :: "HuffmanNode list \<Rightarrow> HuffmanNode \<Rightarrow> nat \<Rightarrow> nat \<Rightarrow> HuffmanNode list" where
  "siftdown_loop heap newitem startpos pos =
     (if pos > startpos then
        (let parentpos = (pos - 1) div 2;
             parent = heap ! parentpos
         in if node_lt newitem parent
            then siftdown_loop (heap[pos := parent]) newitem startpos parentpos
            else heap[pos := newitem])
      else heap[pos := newitem])"
  by pat_completeness auto
termination
  by (relation "measure (\<lambda>(heap, newitem, startpos, pos). pos)") auto

declare siftdown_loop.simps [simp del]

definition siftdown :: "HuffmanNode list \<Rightarrow> nat \<Rightarrow> nat \<Rightarrow> HuffmanNode list" where
  "siftdown heap startpos pos = siftdown_loop heap (heap ! pos) startpos pos"

text \<open>
  \<^verbatim>\<open>_siftup(heap, pos)\<close>: the smaller child is moved up until the hole reaches a leaf
  (the right child is taken unless the left one is strictly smaller); then the item is
  put into the hole and sifted back towards \<open>pos\<close>. The loop returns the list and the
  final position of the hole.
\<close>

function siftup_loop :: "HuffmanNode list \<Rightarrow> nat \<Rightarrow> HuffmanNode list \<times> nat" where
  "siftup_loop heap pos =
     (let endpos = length heap;
          childpos = 2 * pos + 1
      in if childpos < endpos then
           (let rightpos = childpos + 1;
                childpos' = (if rightpos < endpos \<and> \<not> node_lt (heap ! childpos) (heap ! rightpos)
                             then rightpos else childpos)
            in siftup_loop (heap[pos := heap ! childpos']) childpos')
         else (heap, pos))"
  by pat_completeness auto
termination
  by (relation "measure (\<lambda>(heap, pos). length heap - pos)") (auto simp: Let_def)

declare siftup_loop.simps [simp del]

definition siftup :: "HuffmanNode list \<Rightarrow> nat \<Rightarrow> HuffmanNode list" where
  "siftup heap pos =
     (let newitem = heap ! pos;
          (heap', pos') = siftup_loop heap pos
      in siftdown (heap'[pos' := newitem]) pos pos')"

text \<open>\<^verbatim>\<open>heapify(x)\<close>: \<^verbatim>\<open>for i in reversed(range(n//2)): _siftup(x, i)\<close>.\<close>

definition heapify :: "HuffmanNode list \<Rightarrow> HuffmanNode list" where
  "heapify x = fold (\<lambda>i h. siftup h i) (rev [0..<length x div 2]) x"

text \<open>\<^verbatim>\<open>heappush(heap, item)\<close>: append, then sift the new last item towards the root.\<close>

definition heappush :: "HuffmanNode list \<Rightarrow> HuffmanNode \<Rightarrow> HuffmanNode list" where
  "heappush heap item = siftdown (heap @ [item]) 0 (length heap)"

text \<open>
  \<^verbatim>\<open>heappop(heap)\<close>: \<^verbatim>\<open>heap.pop()\<close> raises IndexError on the empty list; otherwise
  the last item replaces the root, which is returned, and is sifted into place.
\<close>

definition heappop :: "HuffmanNode list \<Rightarrow> error + (HuffmanNode \<times> HuffmanNode list)" where
  "heappop heap =
     (if heap = [] then Inl IndexError
      else (let lastelt = last heap;
                heap' = butlast heap
            in if heap' \<noteq> [] then Inr (heap' ! 0, siftup (heap'[0 := lastelt]) 0)
               else Inr (lastelt, heap')))"

section \<open>The Huffman codec of interface.py\<close>

text \<open>
  \<^verbatim>\<open>Counter(data_bytes)\<close>: every byte is counted under its key; keys appear in the order
  of their first occurrence.
\<close>

definition Counter :: "byte list \<Rightarrow> (byte, nat) dict" where
  "Counter data_bytes =
     fold (\<lambda>b d. dict_set d b (case dict_get d b of None \<Rightarrow> 1 | Some c \<Rightarrow> c + 1)) data_bytes []"

text \<open>
  The loop of \<^verbatim>\<open>build_huffman_tree_from_bytes\<close>: while more than one node is left, pop
  two, merge them under a new internal node, push it. An IndexError of \<open>heappop\<close> would
  propagate.
\<close>

function build_loop :: "HuffmanNode list \<Rightarrow> error + HuffmanNode list" where
  "build_loop heap =
     (if length heap > 1 then
        (case heappop heap of
           Inl e \<Rightarrow> Inl e
         | Inr (l, heap1) \<Rightarrow>
             (case heappop heap1 of
                Inl e \<Rightarrow> Inl e
              | Inr (r, heap2) \<Rightarrow>
                  build_loop (heappush heap2 (HuffmanNode None (freq l + freq r) (Some l) (Some r)))))
      else Inr heap)"
  by pat_completeness auto

subsection \<open>The heap operations keep the length\<close>

lemma length_siftdown_loop [simp]:
  "length (siftdown_loop heap newitem startpos pos) = length heap"
  by (induction heap newitem startpos pos rule: siftdown_loop.induct)
     (subst siftdown_loop.simps, simp add: Let_def)

lemma length_siftdown [simp]: "length (siftdown heap startpos pos) = length heap"
  by (simp add: siftdown_def)

lemma length_siftup_loop:
  "siftup_loop heap pos = (heap', pos') \<Longrightarrow> length heap' = length heap"
proof (induction heap pos arbitrary: heap' pos' rule: siftup_loop.induct)
  case (1 heap pos)
  show ?case
  proof (cases "2 * pos + 1 < length heap")
    case True
    define c where "c = (if 2 * pos + 1 + 1 < length heap \<and>
        \<not> node_lt (heap ! (2 * pos + 1)) (heap ! (2 * pos + 1 + 1))
      then 2 * pos + 1 + 1 else 2 * pos + 1)"
    have "siftup_loop heap pos = siftup_loop (heap[pos := heap ! c]) c"
      using True by (subst siftup_loop.simps) (simp add: Let_def c_def)
    then have "siftup_loop (heap[pos := heap ! c]) c = (heap', pos')"
      using "1.prems" by simp
    then have "length heap' = length (heap[pos := heap ! c])"
      using "1.IH" [OF refl refl True refl refl] unfolding c_def by blast
    then show ?thesis by simp
  next
    case False
    have "siftup_loop heap pos = (heap, pos)"
      using False by (subst siftup_loop.simps) (simp add: Let_def)
    then show ?thesis
      using "1.prems" by simp
  qed
qed

lemma length_siftup [simp]: "length (siftup heap pos) = length heap"
  by (auto simp: siftup_def Let_def split: prod.splits dest: length_siftup_loop)

lemma length_heappush [simp]: "length (heappush heap item) = Suc (length heap)"
  by (simp add: heappush_def)

lemma length_heappop:
  "heappop heap = Inr (x, heap') \<Longrightarrow> length heap = Suc (length heap')"
  by (cases heap rule: rev_cases) (auto simp: heappop_def Let_def split: if_splits)

lemma heappop_nonempty: "heap \<noteq> [] \<Longrightarrow> \<exists>x heap'. heappop heap = Inr (x, heap')"
  by (simp add: heappop_def Let_def)

termination build_loop
proof (relation "measure length")
  fix heap b x y ba xa ya
  assume a: "heappop heap = Inr b" "(x, y) = b" "heappop y = Inr ba" "(xa, ya) = ba"
  have "heappop heap = Inr (x, y)"
    using a(1) unfolding a(2) [symmetric] .
  then have "length heap = Suc (length y)"
    by (rule length_heappop)
  moreover have "heappop y = Inr (xa, ya)"
    using a(3) unfolding a(4) [symmetric] .
  then have "length y = Suc (length ya)"
    by (rule length_heappop)
  ultimately show "(heappush ya (HuffmanNode None (freq x + freq xa) (Some x) (Some xa)), heap)
      \<in> measure length"
    by simp
qed simp

declare build_loop.simps [simp del]

text \<open>
  \<^verbatim>\<open>build_huffman_tree_from_bytes\<close>: one leaf per counted symbol, in the order of
  \<^verbatim>\<open>freq.items()\<close>; \<^verbatim>\<open>heapify\<close>; Python's \<^verbatim>\<open>None\<close> for an empty heap; otherwise the
  loop, and \<^verbatim>\<open>heap[0]\<close> (an IndexError on an empty list).
\<close>

definition build_huffman_tree_from_bytes :: "byte list \<Rightarrow> error + HuffmanNode option" where
  "build_huffman_tree_from_bytes data_bytes =
     (let freq = Counter data_bytes;
          heap = heapify (map (\<lambda>(b, f). HuffmanNode (Some b) f None None) freq)
      in if heap = [] then Inr None
         else (case build_loop heap of
                 Inl e \<Rightarrow> Inl e
               | Inr heap' \<Rightarrow> (case heap' of [] \<Rightarrow> Inl IndexError | root # _ \<Rightarrow> Inr (Some root))))"

text \<open>
  \<^verbatim>\<open>walk(node, prefix)\<close> inside \<^verbatim>\<open>build_codes_from_tree\<close>; the dictionary \<^verbatim>\<open>codes\<close> it
  fills is threaded through. \<^verbatim>\<open>prefix or "0"\<close> is \<^verbatim>\<open>"0"\<close> for the empty prefix
  (the parameter is called \<open>pfx\<close> here).
\<close>

fun walk :: "HuffmanNode option \<Rightarrow> string \<Rightarrow> (byte, string) dict \<Rightarrow> (byte, string) dict" where
  "walk None pfx codes = codes"
| "walk (Some (HuffmanNode bv f l r)) pfx codes =
     (case bv of
        Some b \<Rightarrow> dict_set codes b (if pfx = [] then ''0'' else pfx)
      | None \<Rightarrow> walk r (pfx @ ''1'') (walk l (pfx @ ''0'') codes))"

definition build_codes_from_tree :: "HuffmanNode option \<Rightarrow> (byte, string) dict" where
  "build_codes_from_tree root = walk root [] []"

text \<open>
  The encoding line \<^verbatim>\<open>"".join(codes[b] for b in data_bytes)\<close>: \<^verbatim>\<open>codes[b]\<close> raises
  KeyError for a symbol without an entry, and the first such symbol stops the join.
\<close>

fun encode_bits :: "(byte, string) dict \<Rightarrow> byte list \<Rightarrow> error + string" where
  "encode_bits codes [] = Inr []"
| "encode_bits codes (b # bs) =
     (case dict_get codes b of
        None \<Rightarrow> Inl (KeyError b)
      | Some c \<Rightarrow> (case encode_bits codes bs of Inl e \<Rightarrow> Inl e | Inr rest \<Rightarrow> Inr (c @ rest)))"

text \<open>
  \<^verbatim>\<open>huffman_compress_bytes\<close> returns the bit string and the code table; the third
  component of the Python result, the elapsed time, is left out.
\<close>

definition huffman_compress_bytes :: "byte list \<Rightarrow> error + (string \<times> (byte, string) dict)" where
  "huffman_compress_bytes data_bytes =
     (case build_huffman_tree_from_bytes data_bytes of
        Inl e \<Rightarrow> Inl e
      | Inr None \<Rightarrow> Inr ([], [])
      | Inr (Some root) \<Rightarrow>
          (let codes = build_codes_from_tree (Some root)
           in case encode_bits codes data_bytes of
                Inl e \<Rightarrow> Inl e
              | Inr encoded_bits \<Rightarrow> Inr (encoded_bits, codes)))"

text \<open>
  \<^verbatim>\<open>huffman_decompress_bits\<close>: \<open>reverse_map\<close> is the comprehension
  \<^verbatim>\<open>{v: k for k, v in codes.items()}\<close>; the loop state is the buffer \<open>cur\<close> and the bytes
  decoded so far; the result is the decoded bytes (again without the elapsed time).
\<close>

definition reverse_map :: "(byte, string) dict \<Rightarrow> (string, byte) dict" where
  "reverse_map codes = fold (\<lambda>(k, v) m. dict_set m v k) codes []"

definition decode_step :: "(string, byte) dict \<Rightarrow> char \<Rightarrow> string \<times> byte list \<Rightarrow> string \<times> byte list" where
  "decode_step rm c st =
     (let cur = fst st @ [c]
      in case dict_get rm cur of
           Some b \<Rightarrow> ([], snd st @ [b])
         | None \<Rightarrow> (cur, snd st))"

definition decode_loop :: "(string, byte) dict \<Rightarrow> string \<Rightarrow> string \<times> byte list \<Rightarrow> string \<times> byte list" where
  "decode_loop rm encoded_bits st = fold (decode_step rm) encoded_bits st"

definition huffman_decompress_bits :: "string \<Rightarrow> (byte, string) dict \<Rightarrow> byte list" where
  "huffman_decompress_bits encoded_bits codes =
     snd (decode_loop (reverse_map codes) encoded_bits ([], []))"

section \<open>Dictionaries and the frequency table\<close>

lemma dict_get_dict_set:
  "dict_get (dict_set d k v) k' = (if k' = k then Some v else dict_get d k')"
  by (induction d k v rule: dict_set.induct) (auto simp: dict_get_def)

lemma keys_dict_set: "fst ` set (dict_set d k v) = insert k (fst ` set d)"
  by (induction d k v rule: dict_set.induct) auto

lemma distinct_dict_set:
  "distinct (map fst d) \<Longrightarrow> distinct (map fst (dict_set d k v))"
  by (induction d k v rule: dict_set.induct) (auto simp: keys_dict_set)

lemma dict_set_new: "k \<notin> fst ` set d \<Longrightarrow> dict_set d k v = d @ [(k, v)]"
  by (induction d k v rule: dict_set.induct) auto

lemma dict_get_None_iff: "dict_get d k = None \<longleftrightarrow> k \<notin> fst ` set d"
  by (simp add: dict_get_def map_of_eq_None_iff)

text \<open>
  Proof devices: \<open>Counter_step\<close> is one round of the counting loop of \<open>Counter\<close>, and
  \<open>cnt d b\<close> reads the count of \<open>b\<close> in \<open>d\<close>, zero for a missing key.
\<close>

definition Counter_step :: "byte \<Rightarrow> (byte, nat) dict \<Rightarrow> (byte, nat) dict" where
  "Counter_step b d = dict_set d b (case dict_get d b of None \<Rightarrow> 1 | Some c \<Rightarrow> c + 1)"

lemma Counter_fold: "Counter data = fold Counter_step data []"
  by (simp add: Counter_def Counter_step_def [abs_def])

lemma keys_Counter_fold:
  "fst ` set (fold Counter_step data acc) = fst ` set acc \<union> set data"
  by (induction data arbitrary: acc) (auto simp: Counter_step_def keys_dict_set)

lemma distinct_Counter_fold:
  "distinct (map fst acc) \<Longrightarrow> distinct (map fst (fold Counter_step data acc))"
  by (induction data arbitrary: acc) (auto simp: Counter_step_def distinct_dict_set)

definition cnt :: "(byte, nat) dict \<Rightarrow> byte \<Rightarrow> nat" where
  "cnt d b = (case dict_get d b of None \<Rightarrow> 0 | Some c \<Rightarrow> c)"

lemma cnt_Counter_step: "cnt (Counter_step x d) b = cnt d b + (if x = b then 1 else 0)"
  by (simp add: cnt_def Counter_step_def dict_get_dict_set split: option.split)

lemma cnt_Counter_fold: "cnt (fold Counter_step data acc) b = cnt acc b + count_list data b"
  by (induction data arbitrary: acc) (simp_all add: cnt_Counter_step)

lemma dict_get_cnt: "b \<in> fst ` set d \<Longrightarrow> dict_get d b = Some (cnt d b)"
  by (cases "dict_get d b") (simp_all add: cnt_def dict_get_None_iff)

lemma keys_Counter: "fst ` set (Counter data) = set data"
  by (simp add: Counter_fold keys_Counter_fold)

lemma distinct_Counter: "distinct (map fst (Counter data))"
  by (simp add: Counter_fold distinct_Counter_fold)

lemma get_Counter: "b \<in> set data \<Longrightarrow> dict_get (Counter data) b = Some (count_list data b)"
proof -
  assume "b \<in> set data"
  then have "b \<in> fst ` set (Counter data)"
    by (simp add: keys_Counter)
  then have "dict_get (Counter data) b = Some (cnt (Counter data) b)"
    by (rule dict_get_cnt)
  also have "cnt (Counter data) b = count_list data b"
    by (simp add: Counter_fold cnt_Counter_fold) (simp add: cnt_def dict_get_def)
  finally show ?thesis .
qed

lemma Counter_Nil_iff: "Counter data = [] \<longleftrightarrow> data = []"
proof
  assume "Counter data = []"
  then have "set data = {}"
    using keys_Counter [of data] by simp
  then show "data = []" by simp
next
  assume "data = []"
  then show "Counter data = []" by (simp add: Counter_def)
qed

lemma length_heapify_fold: "length (fold (\<lambda>i h. siftup h i) is x) = length x"
  by (induction "is" arbitrary: x) simp_all

lemma length_heapify [simp]: "length (heapify x) = length x"
  by (simp add: heapify_def length_heapify_fold)

lemma encode_bits_ok:
  "\<forall>b\<in>set data. dict_get codes b \<noteq> None \<Longrightarrow>
   encode_bits codes data = Inr (concat (map (\<lambda>b. the (dict_get codes b)) data))"
  by (induction data) (auto split: option.split)

lemma encode_bits_err:
  "b \<in> set data \<Longrightarrow> dict_get codes b = None \<Longrightarrow>
   \<exists>b'\<in>set data. dict_get codes b' = None \<and> encode_bits codes data = Inl (KeyError b')"
  by (induction data) (auto split: option.split sum.split)

lemma encode_bits_Inr:
  "encode_bits codes data = Inr bits \<Longrightarrow>
   (\<forall>b\<in>set data. dict_get codes b \<noteq> None) \<and>
   bits = concat (map (\<lambda>b. the (dict_get codes b)) data)"
  by (induction data arbitrary: bits) (auto split: option.splits sum.splits)

lemma length_concat_codes:
  "length (concat (map f data)) = (\<Sum>s\<in>set data. count_list data s * length (f s))"
proof -
  have "length (concat (map f data)) = sum_list (map (\<lambda>s. length (f s)) data)"
    by (simp add: length_concat comp_def)
  also have "\<dots> = (\<Sum>s\<in>set data. count_list data s * length (f s))"
    by (rule sum_list_map_eq_sum_count)
  finally show ?thesis .
qed


section \<open>The decoder loop\<close>

lemma decode_loop_Nil [simp]: "decode_loop rm [] st = st"
  by (simp add: decode_loop_def)

lemma decode_loop_Cons [simp]:
  "decode_loop rm (c # bits) st = decode_loop rm bits (decode_step rm c st)"
  by (simp add: decode_loop_def)

lemma decode_loop_append:
  "decode_loop rm (xs @ ys) st = decode_loop rm ys (decode_loop rm xs st)"
  by (simp add: decode_loop_def)

lemma decode_step_eq:
  "decode_step rm c (cur, out) =
     (case dict_get rm (cur @ [c]) of Some b \<Rightarrow> ([], out @ [b]) | None \<Rightarrow> (cur @ [c], out))"
  by (simp add: decode_step_def Let_def split: option.split)

lemma decode_loop_length:
  "length (snd (decode_loop rm bits st)) \<le> length (snd st) + length bits"
proof (induction bits arbitrary: st)
  case Nil
  show ?case by simp
next
  case (Cons c bits)
  have "length (snd (decode_step rm c st)) \<le> Suc (length (snd st))"
    by (cases st) (simp add: decode_step_eq split: option.split)
  with Cons [of "decode_step rm c st"] show ?case by simp
qed

lemma decode_loop_no_match:
  "(\<And>n. 0 < n \<Longrightarrow> n \<le> length t \<Longrightarrow> dict_get rm (cur @ take n t) = None) \<Longrightarrow>
   decode_loop rm t (cur, out) = (cur @ t, out)"
proof (induction t arbitrary: cur)
  case Nil
  show ?case by simp
next
  case (Cons x t)
  have "dict_get rm (cur @ take 1 (x # t)) = None"
    by (rule Cons.prems) simp_all
  then have step: "decode_step rm x (cur, out) = (cur @ [x], out)"
    by (simp add: decode_step_eq)
  have "decode_loop rm t (cur @ [x], out) = ((cur @ [x]) @ t, out)"
  proof (rule Cons.IH)
    fix n assume "0 < n" "n \<le> length t"
    then have "dict_get rm (cur @ take (Suc n) (x # t)) = None"
      by (intro Cons.prems) simp_all
    then show "dict_get rm ((cur @ [x]) @ take n t) = None" by simp
  qed
  with step show ?case by simp
qed

lemma decode_loop_suffix:
  "decode_loop rm bits ([], []) = (cur, out) \<Longrightarrow>
   \<exists>pre. bits = pre @ cur \<and> decode_loop rm pre ([], []) = ([], out)"
proof (induction bits arbitrary: cur out rule: rev_induct)
  case Nil
  then show ?case by simp
next
  case (snoc x xs)
  obtain cur0 out0 where st: "decode_loop rm xs ([], []) = (cur0, out0)"
    by (cases "decode_loop rm xs ([], [])") blast
  from snoc.IH [OF st] obtain pre0 where
    pre0: "xs = pre0 @ cur0" "decode_loop rm pre0 ([], []) = ([], out0)" by blast
  have fin: "decode_step rm x (cur0, out0) = (cur, out)"
    using snoc.prems st by (simp add: decode_loop_append)
  show ?case
  proof (cases "dict_get rm (cur0 @ [x])")
    case None
    with fin have "cur = cur0 @ [x]" "out = out0" by (simp_all add: decode_step_eq)
    with pre0 show ?thesis by auto
  next
    case (Some b)
    with fin have "cur = []" "out = out0 @ [b]" by (simp_all add: decode_step_eq)
    with snoc.prems show ?thesis by auto
  qed
qed

section \<open>Properties of the encoder\<close>

text \<open>
  Claim C8: when some symbol of the input has no entry in the code table, the encoding
  line fails with a KeyError for a missing symbol (nothing is skipped or substituted);
  when every symbol has an entry it succeeds, and the result is the concatenation of
  the symbols' codes.
\<close>

theorem encode_bits_KeyError:
  "((\<forall>b\<in>set data. dict_get codes b \<noteq> None) \<longrightarrow>
      encode_bits codes data = Inr (concat (map (\<lambda>b. the (dict_get codes b)) data))) \<and>
   ((\<exists>b\<in>set data. dict_get codes b = None) \<longrightarrow>
      (\<exists>b\<in>set data. dict_get codes b = None \<and> encode_bits codes data = Inl (KeyError b)))"
  using encode_bits_ok [of data codes] encode_bits_err [of _ data codes] by blast

theorem encode_bits_KeyError_witness:
  "encode_bits [(1, ''0''), (2, ''1'')] [1, 2, 1] = Inr ''010'' \<and>
   encode_bits [(1, ''0''), (2, ''1'')] [1, 3, 2] = Inl (KeyError 3)"
  using encode_bits_KeyError [of "[1, 2, 1]" "[(1, ''0''), (2, ''1'')]"]
    encode_bits_KeyError [of "[1, 3, 2]" "[(1, ''0''), (2, ''1'')]"]
  by (simp add: dict_get_def)




lemma compress_empty: "huffman_compress_bytes [] = Inr ([], [])"
  by (simp add: huffman_compress_bytes_def build_huffman_tree_from_bytes_def Counter_def
      heapify_def)

lemma decompress_empty: "huffman_decompress_bits [] codes = []"
  by (simp add: huffman_decompress_bits_def)

text \<open>
  Claim C7: encoding the empty byte sequence gives the empty bit stream and the empty
  code table, without error; decoding the empty stream with the empty table gives the
  empty byte sequence.
\<close>

theorem empty_round_trip:
  "huffman_compress_bytes [] = Inr ([], []) \<and> huffman_decompress_bits [] [] = []"
  by (simp add: compress_empty decompress_empty)


section \<open>Properties of the decoder\<close>



text \<open>
  Claim C2, as amended: the decoder has no failure result. For every bit stream and
  every table it returns a byte sequence; when the stream ends with an unresolved
  non-empty buffer, the buffer is a suffix of the stream and the bytes returned are
  exactly those decoded from the stream without it. A corrupted or foreign stream is
  therefore decoded to a wrong or truncated byte sequence, silently; the comparison
  with the original bytes is left to the caller.
\<close>

theorem decompress_drops_unresolved_tail:
  "decode_loop (reverse_map codes) bits ([], []) = (cur, out) \<Longrightarrow>
   huffman_decompress_bits bits codes = out \<and>
   (\<exists>pre. bits = pre @ cur \<and> decode_loop (reverse_map codes) pre ([], []) = ([], out) \<and>
      huffman_decompress_bits pre codes = out)"
proof -
  assume a: "decode_loop (reverse_map codes) bits ([], []) = (cur, out)"
  from decode_loop_suffix [OF a] obtain pre where
    "bits = pre @ cur" "decode_loop (reverse_map codes) pre ([], []) = ([], out)" by blast
  then show ?thesis
    using a by (auto simp: huffman_decompress_bits_def)
qed

theorem decompress_drops_unresolved_tail_witness:
  "decode_loop (reverse_map [(97, ''0''), (98, ''10'')]) ''01'' ([], []) = (''1'', [97]) \<and>
   huffman_decompress_bits ''01'' [(97, ''0''), (98, ''10'')] = [97]"
proof -
  have rm: "reverse_map [(97, ''0''), (98, ''10'')] = [(''0'', 97), (''10'', 98)]"
    by (simp add: reverse_map_def)
  have st: "decode_loop (reverse_map [(97, ''0''), (98, ''10'')]) ''01'' ([], []) = (''1'', [97])"
    by (simp add: rm decode_step_def dict_get_def)
  from decompress_drops_unresolved_tail [OF st] st show ?thesis by blast
qed

text \<open>
  The claim as stated fails. The table built from \<open>aaabbc\<close> decodes the stream built
  from \<open>ab\<close> (the bits 10) to the single byte \<open>c\<close>, and decodes the single bit 1, which
  leaves the buffer unresolved, to the empty byte sequence; in both cases a byte
  sequence is returned and nothing signals a failure.
\<close>

theorem decompress_no_failure_counterexample:
  "huffman_compress_bytes [97, 97, 97, 98, 98, 99] =
     Inr (''000111110'', [(97, ''0''), (99, ''10''), (98, ''11'')]) \<and>
   huffman_compress_bytes [97, 98] = Inr (''10'', [(98, ''0''), (97, ''1'')]) \<and>
   huffman_decompress_bits ''10'' [(97, ''0''), (99, ''10''), (98, ''11'')] = [99] \<and>
   decode_loop (reverse_map [(97, ''0''), (99, ''10''), (98, ''11'')]) ''1'' ([], []) = (''1'', []) \<and>
   huffman_decompress_bits ''1'' [(97, ''0''), (99, ''10''), (98, ''11'')] = []"
  by code_simp


section \<open>The heap operations keep the elements\<close>

text \<open>
  Proof device: \<open>minchild heap pos\<close> is the child position that one round of the loop
  of \<open>siftup_loop\<close> selects.
\<close>

definition minchild :: "HuffmanNode list \<Rightarrow> nat \<Rightarrow> nat" where
  "minchild heap pos =
     (if 2 * pos + 2 < length heap \<and> \<not> node_lt (heap ! (2 * pos + 1)) (heap ! (2 * pos + 2))
      then 2 * pos + 2 else 2 * pos + 1)"

lemma siftup_loop_leaf:
  "\<not> 2 * pos + 1 < length heap \<Longrightarrow> siftup_loop heap pos = (heap, pos)"
  by (subst siftup_loop.simps) (simp add: Let_def)

lemma siftup_loop_step:
  "2 * pos + 1 < length heap \<Longrightarrow>
   siftup_loop heap pos = siftup_loop (heap[pos := heap ! minchild heap pos]) (minchild heap pos)"
  by (subst siftup_loop.simps) (simp add: Let_def minchild_def)

lemma minchild_cases: "minchild heap pos = 2 * pos + 1 \<or> minchild heap pos = 2 * pos + 2"
  by (simp add: minchild_def)

lemma minchild_less: "2 * pos + 1 < length heap \<Longrightarrow> minchild heap pos < length heap"
  by (simp add: minchild_def)

lemma minchild_gt: "pos < minchild heap pos"
  by (simp add: minchild_def)

lemma siftup_loop_induct [consumes 0, case_names leaf step]:
  assumes "\<And>heap pos. \<not> 2 * pos + 1 < length heap \<Longrightarrow> P heap pos"
    and "\<And>heap pos. 2 * pos + 1 < length heap \<Longrightarrow>
          P (heap[pos := heap ! minchild heap pos]) (minchild heap pos) \<Longrightarrow> P heap pos"
  shows "P heap pos"
proof (induction heap pos rule: siftup_loop.induct)
  case (1 heap pos)
  show ?case
  proof (cases "2 * pos + 1 < length heap")
    case True
    have eq: "minchild heap pos =
        (if 2 * pos + 1 + 1 < length heap \<and>
            \<not> node_lt (heap ! (2 * pos + 1)) (heap ! (2 * pos + 1 + 1))
         then 2 * pos + 1 + 1 else 2 * pos + 1)"
      by (simp add: minchild_def)
    have "P (heap[pos := heap ! minchild heap pos]) (minchild heap pos)"
      unfolding eq by (rule "1.IH" [OF refl refl True refl refl])
    with True show ?thesis by (rule assms(2))
  next
    case False
    then show ?thesis by (rule assms(1))
  qed
qed

lemma siftdown_loop_stop:
  "\<not> (startpos < pos \<and> node_lt newitem (heap ! ((pos - 1) div 2))) \<Longrightarrow>
   siftdown_loop heap newitem startpos pos = heap[pos := newitem]"
  by (subst siftdown_loop.simps) (auto simp: Let_def)

lemma siftdown_loop_step:
  "startpos < pos \<Longrightarrow> node_lt newitem (heap ! ((pos - 1) div 2)) \<Longrightarrow>
   siftdown_loop heap newitem startpos pos =
     siftdown_loop (heap[pos := heap ! ((pos - 1) div 2)]) newitem startpos ((pos - 1) div 2)"
  by (subst siftdown_loop.simps) (simp add: Let_def)

lemma siftdown_loop_induct [consumes 0, case_names stop step]:
  assumes "\<And>heap newitem startpos pos.
      \<not> (startpos < pos \<and> node_lt newitem (heap ! ((pos - 1) div 2))) \<Longrightarrow>
      P heap newitem startpos pos"
    and "\<And>heap newitem startpos pos.
      startpos < pos \<Longrightarrow> node_lt newitem (heap ! ((pos - 1) div 2)) \<Longrightarrow>
      P (heap[pos := heap ! ((pos - 1) div 2)]) newitem startpos ((pos - 1) div 2) \<Longrightarrow>
      P heap newitem startpos pos"
  shows "P heap newitem startpos pos"
proof (induction heap newitem startpos pos rule: siftdown_loop.induct)
  case (1 heap newitem startpos pos)
  show ?case
  proof (cases "startpos < pos \<and> node_lt newitem (heap ! ((pos - 1) div 2))")
    case True
    then have ih: "P (heap[pos := heap ! ((pos - 1) div 2)]) newitem startpos ((pos - 1) div 2)"
      using "1.IH" [OF _ refl refl] by simp
    from True have t1: "startpos < pos"
      and t2: "node_lt newitem (heap ! ((pos - 1) div 2))" by blast+
    from t1 t2 ih show ?thesis by (rule assms(2))
  next
    case False
    then show ?thesis by (rule assms(1))
  qed
qed

lemma mset_swap_upd:
  "i < length h \<Longrightarrow> j < length h \<Longrightarrow> mset (h[i := h ! j, j := x]) = mset (h[i := x])"
  by (cases "i = j") (simp_all add: mset_update nth_list_update)

lemma mset_siftdown_loop:
  "pos < length heap \<Longrightarrow>
   mset (siftdown_loop heap newitem startpos pos) = mset (heap[pos := newitem])"
proof (induction heap newitem startpos pos rule: siftdown_loop_induct)
  case (stop heap newitem startpos pos)
  then show ?case by (simp add: siftdown_loop_stop)
next
  case (step heap newitem startpos pos)
  have pp: "(pos - 1) div 2 < length heap" using step.prems by simp
  have "mset (siftdown_loop heap newitem startpos pos) =
      mset (heap[pos := heap ! ((pos - 1) div 2), (pos - 1) div 2 := newitem])"
    using step pp by (simp add: siftdown_loop_step)
  also have "\<dots> = mset (heap[pos := newitem])"
    using step.prems pp by (rule mset_swap_upd)
  finally show ?case .
qed

lemma mset_siftup_loop:
  "siftup_loop heap pos = (heap', pos') \<Longrightarrow> pos < length heap \<Longrightarrow>
   pos' < length heap \<and> mset (heap'[pos' := x]) = mset (heap[pos := x])"
proof (induction heap pos rule: siftup_loop_induct)
  case (leaf heap pos)
  then show ?case by (simp add: siftup_loop_leaf)
next
  case (step heap pos)
  let ?c = "minchild heap pos"
  have c: "?c < length heap" using step.hyps by (rule minchild_less)
  have "siftup_loop (heap[pos := heap ! ?c]) ?c = (heap', pos')"
    using step.prems(1) step.hyps by (simp add: siftup_loop_step)
  from step.IH [OF this] c
  have "pos' < length heap" "mset (heap'[pos' := x]) = mset (heap[pos := heap ! ?c, ?c := x])"
    by simp_all
  moreover have "mset (heap[pos := heap ! ?c, ?c := x]) = mset (heap[pos := x])"
    using step.prems(2) c by (rule mset_swap_upd)
  ultimately show ?case by simp
qed

lemma mset_siftup: "pos < length heap \<Longrightarrow> mset (siftup heap pos) = mset heap"
proof -
  assume p: "pos < length heap"
  obtain heap' pos' where sl: "siftup_loop heap pos = (heap', pos')"
    by (cases "siftup_loop heap pos") blast
  from mset_siftup_loop [OF sl p, of "heap ! pos"] length_siftup_loop [OF sl]
  have p': "pos' < length heap'" and m: "mset (heap'[pos' := heap ! pos]) = mset heap"
    by simp_all
  have "siftup heap pos = siftdown_loop (heap'[pos' := heap ! pos]) (heap ! pos) pos pos'"
    using p' by (simp add: siftup_def sl siftdown_def Let_def)
  then show ?thesis
    using p' m by (simp add: mset_siftdown_loop)
qed

lemma mset_heapify_fold:
  "\<forall>i\<in>set is. i < length x \<Longrightarrow> mset (fold (\<lambda>i h. siftup h i) is x) = mset x"
  by (induction "is" arbitrary: x) (simp_all add: mset_siftup)

lemma mset_heapify [simp]: "mset (heapify x) = mset x"
proof -
  have "\<forall>i\<in>set (rev [0..<length x div 2]). i < length x"
    by auto
  then show ?thesis
    unfolding heapify_def by (rule mset_heapify_fold)
qed

lemma mset_heappush [simp]: "mset (heappush heap item) = add_mset item (mset heap)"
  by (simp add: heappush_def siftdown_def mset_siftdown_loop)

lemma mset_heappop:
  "heappop heap = Inr (x, heap') \<Longrightarrow> mset heap = add_mset x (mset heap')"
proof (cases heap rule: rev_cases)
  case Nil
  assume "heappop heap = Inr (x, heap')"
  with Nil show ?thesis by (simp add: heappop_def)
next
  case (snoc ys y)
  assume a: "heappop heap = Inr (x, heap')"
  show ?thesis
  proof (cases ys)
    case Nil
    with a snoc show ?thesis by (simp add: heappop_def)
  next
    case (Cons z zs)
    with a snoc have "x = z" "heap' = siftup (y # zs) 0"
      by (simp_all add: heappop_def)
    then show ?thesis
      using snoc Cons by (simp add: mset_siftup)
  qed
qed

section \<open>Trees, their leaves and the code table\<close>

text \<open>
  Proof devices: \<open>leaves t pfx\<close> lists the leaves of a tree from left to right, each
  with its symbol, its frequency and the path that leads to it (0 for a left child, 1
  for a right child) after \<open>pfx\<close>; \<open>items\<close> and \<open>paths\<close> are its two projections.
\<close>

fun leaves :: "HuffmanNode \<Rightarrow> string \<Rightarrow> (byte \<times> nat \<times> string) list" where
  "leaves (HuffmanNode bv f l r) pfx =
     (case bv of
        Some b \<Rightarrow> [(b, f, pfx)]
      | None \<Rightarrow> (case l of None \<Rightarrow> [] | Some t \<Rightarrow> leaves t (pfx @ ''0'')) @
                (case r of None \<Rightarrow> [] | Some t \<Rightarrow> leaves t (pfx @ ''1'')))"

definition items :: "HuffmanNode \<Rightarrow> (byte \<times> nat) list" where
  "items t = map (\<lambda>(b, f, c). (b, f)) (leaves t [])"

definition paths :: "HuffmanNode \<Rightarrow> string \<Rightarrow> (byte \<times> string) list" where
  "paths t pfx = map (\<lambda>(b, f, c). (b, c)) (leaves t pfx)"

lemma leaves_items_indep:
  "map (\<lambda>(b, f, c). (b, f)) (leaves t p) = map (\<lambda>(b, f, c). (b, f)) (leaves t q)"
proof (induction t p arbitrary: q rule: leaves.induct)
  case (1 bv f l r pfx)
  show ?case
  proof (cases bv)
    case (Some b)
    then show ?thesis by simp
  next
    case None
    have L: "map (\<lambda>(b, f, c). (b, f)) (case l of None \<Rightarrow> [] | Some t \<Rightarrow> leaves t (pfx @ ''0'')) =
             map (\<lambda>(b, f, c). (b, f)) (case l of None \<Rightarrow> [] | Some t \<Rightarrow> leaves t (q @ ''0''))"
    proof (cases l)
      case None
      then show ?thesis by simp
    next
      case (Some t)
      show ?thesis
        unfolding Some option.case by (rule "1.IH"(1) [OF None Some])
    qed
    have R: "map (\<lambda>(b, f, c). (b, f)) (case r of None \<Rightarrow> [] | Some t \<Rightarrow> leaves t (pfx @ ''1'')) =
             map (\<lambda>(b, f, c). (b, f)) (case r of None \<Rightarrow> [] | Some t \<Rightarrow> leaves t (q @ ''1''))"
    proof (cases r)
      case None
      then show ?thesis by simp
    next
      case (Some t)
      show ?thesis
        unfolding Some option.case by (rule "1.IH"(2) [OF None Some])
    qed
    have "map (\<lambda>(b, f, c). (b, f)) (leaves (HuffmanNode bv f l r) pfx) =
        map (\<lambda>(b, f, c). (b, f)) (case l of None \<Rightarrow> [] | Some t \<Rightarrow> leaves t (pfx @ ''0'')) @
        map (\<lambda>(b, f, c). (b, f)) (case r of None \<Rightarrow> [] | Some t \<Rightarrow> leaves t (pfx @ ''1''))"
      using None by simp
    also have "\<dots> =
        map (\<lambda>(b, f, c). (b, f)) (case l of None \<Rightarrow> [] | Some t \<Rightarrow> leaves t (q @ ''0'')) @
        map (\<lambda>(b, f, c). (b, f)) (case r of None \<Rightarrow> [] | Some t \<Rightarrow> leaves t (q @ ''1''))"
      by (simp only: L R)
    also have "\<dots> = map (\<lambda>(b, f, c). (b, f)) (leaves (HuffmanNode bv f l r) q)"
      using None by simp
    finally show ?thesis .
  qed
qed

lemma paths_keys: "map fst (paths t p) = map fst (items t)"
proof -
  have "map fst (paths t p) = map fst (map (\<lambda>(b, f, c). (b, f)) (leaves t p))"
    by (simp add: paths_def comp_def case_prod_unfold)
  also have "\<dots> = map fst (items t)"
    unfolding items_def by (subst leaves_items_indep [of t p "[]"]) simp
  finally show ?thesis .
qed

lemma items_leaf [simp]: "items (HuffmanNode (Some b) f l r) = [(b, f)]"
  by (simp add: items_def)

lemma items_merge [simp]:
  "items (HuffmanNode None f (Some l) (Some r)) = items l @ items r"
  unfolding items_def
  by (simp add: leaves_items_indep [of l "''0''" "[]"] leaves_items_indep [of r "''1''" "[]"])

lemma paths_leaf [simp]: "paths (HuffmanNode (Some b) f l r) p = [(b, p)]"
  by (simp add: paths_def)

lemma paths_merge [simp]:
  "paths (HuffmanNode None f (Some l) (Some r)) p = paths l (p @ ''0'') @ paths r (p @ ''1'')"
  by (simp add: paths_def)

lemma paths_prefix: "(b, c) \<in> set (paths t p) \<Longrightarrow> prefix p c"
proof (induction t p arbitrary: b c rule: leaves.induct)
  case (1 bv f l r pfx)
  show ?case
  proof (cases bv)
    case (Some b')
    with "1.prems" show ?thesis by (simp add: paths_def)
  next
    case None
    from "1.prems" None have
      "(l \<noteq> None \<and> (b, c) \<in> set (paths (the l) (pfx @ ''0''))) \<or>
       (r \<noteq> None \<and> (b, c) \<in> set (paths (the r) (pfx @ ''1'')))"
      by (cases l; cases r) (auto simp: paths_def)
    then show ?thesis
    proof
      assume a: "l \<noteq> None \<and> (b, c) \<in> set (paths (the l) (pfx @ ''0''))"
      then obtain t where "l = Some t" by auto
      with a "1.IH"(1) [OF None this] have "prefix (pfx @ ''0'') c" by simp
      then show ?thesis by (rule append_prefixD)
    next
      assume a: "r \<noteq> None \<and> (b, c) \<in> set (paths (the r) (pfx @ ''1''))"
      then obtain t where "r = Some t" by auto
      with a "1.IH"(2) [OF None this] have "prefix (pfx @ ''1'') c" by simp
      then show ?thesis by (rule append_prefixD)
    qed
  qed
qed

text \<open>
  A list of codes is prefix-free when the codes are pairwise different and none is a
  prefix of another.
\<close>

definition pf :: "string list \<Rightarrow> bool" where
  "pf cs \<longleftrightarrow> distinct cs \<and> (\<forall>x\<in>set cs. \<forall>y\<in>set cs. prefix x y \<longrightarrow> x = y)"

lemma prefix_snoc_same:
  assumes "prefix (p @ [a]) y" "prefix (p @ [b]) y"
  shows "a = b"
proof -
  from assms obtain u v where "y = (p @ [a]) @ u" "y = (p @ [b]) @ v"
    by (auto simp: prefix_def)
  then show ?thesis by simp
qed

lemma pf_append:
  assumes "pf xs" "pf ys" "\<forall>x\<in>set xs. prefix (p @ [a]) x" "\<forall>y\<in>set ys. prefix (p @ [b]) y"
    and "a \<noteq> b"
  shows "pf (xs @ ys)"
proof -
  have cross: "\<not> prefix x y \<and> \<not> prefix y x" if "x \<in> set xs" "y \<in> set ys" for x y
  proof -
    from that assms(3,4) have px: "prefix (p @ [a]) x" and py: "prefix (p @ [b]) y" by auto
    show ?thesis
    proof (intro conjI notI)
      assume "prefix x y"
      with px have "prefix (p @ [a]) y" by (rule prefix_order.trans)
      with py assms(5) show False by (auto dest: prefix_snoc_same)
    next
      assume "prefix y x"
      with py have "prefix (p @ [b]) x" by (rule prefix_order.trans)
      with px assms(5) show False by (auto dest: prefix_snoc_same)
    qed
  qed
  have "set xs \<inter> set ys = {}"
    using cross by (metis disjoint_iff prefix_order.refl)
  with assms(1,2) cross show ?thesis
    unfolding pf_def by auto
qed

lemma paths_node_None:
  "paths (HuffmanNode None f l r) p =
     (case l of None \<Rightarrow> [] | Some t \<Rightarrow> paths t (p @ ''0'')) @
     (case r of None \<Rightarrow> [] | Some t \<Rightarrow> paths t (p @ ''1''))"
  by (simp add: paths_def split: option.split)

lemma paths_pf: "pf (map snd (paths t p))"
proof (induction t p rule: leaves.induct)
  case (1 bv f l r pfx)
  show ?case
  proof (cases bv)
    case (Some b)
    then show ?thesis by (simp add: pf_def)
  next
    case None
    let ?L = "case l of None \<Rightarrow> [] | Some t \<Rightarrow> paths t (pfx @ ''0'')"
    let ?R = "case r of None \<Rightarrow> [] | Some t \<Rightarrow> paths t (pfx @ ''1'')"
    have pL: "pf (map snd ?L)"
      using "1.IH"(1) [OF None] by (cases l) (simp_all add: pf_def)
    have pR: "pf (map snd ?R)"
      using "1.IH"(2) [OF None] by (cases r) (simp_all add: pf_def)
    have aL: "\<forall>x\<in>set (map snd ?L). prefix (pfx @ [CHR ''0'']) x"
      by (cases l) (auto dest: paths_prefix)
    have aR: "\<forall>x\<in>set (map snd ?R). prefix (pfx @ [CHR ''1'']) x"
      by (cases r) (auto dest: paths_prefix)
    have "pf (map snd ?L @ map snd ?R)"
      using pL pR aL aR by (rule pf_append) simp
    then show ?thesis
      using None by (simp add: paths_node_None)
  qed
qed

lemma walk_paths:
  "pfx \<noteq> [] \<Longrightarrow> distinct (map fst codes @ map fst (paths t pfx)) \<Longrightarrow>
   walk (Some t) pfx codes = codes @ paths t pfx"
proof (induction t pfx arbitrary: codes rule: leaves.induct)
  case (1 bv f l r pfx)
  show ?case
  proof (cases bv)
    case (Some b)
    with "1.prems" have "b \<notin> fst ` set codes" by auto
    then show ?thesis
      using Some "1.prems"(1) by (simp add: dict_set_new)
  next
    case None
    let ?L = "case l of None \<Rightarrow> [] | Some t \<Rightarrow> paths t (pfx @ ''0'')"
    let ?R = "case r of None \<Rightarrow> [] | Some t \<Rightarrow> paths t (pfx @ ''1'')"
    have d: "distinct (map fst codes @ map fst ?L @ map fst ?R)"
      using "1.prems"(2) None by (simp add: paths_node_None)
    have wl: "walk l (pfx @ ''0'') codes = codes @ ?L"
    proof (cases l)
      case None
      then show ?thesis by simp
    next
      case (Some t)
      have "walk (Some t) (pfx @ ''0'') codes = codes @ paths t (pfx @ ''0'')"
        by (rule "1.IH"(1) [OF None Some]) (use d Some in auto)
      with Some show ?thesis by simp
    qed
    have wr: "walk r (pfx @ ''1'') (codes @ ?L) = (codes @ ?L) @ ?R"
    proof (cases r)
      case None
      then show ?thesis by simp
    next
      case (Some t)
      have "walk (Some t) (pfx @ ''1'') (codes @ ?L) = (codes @ ?L) @ paths t (pfx @ ''1'')"
        by (rule "1.IH"(2) [OF \<open>bv = None\<close> Some]) (use d Some in auto)
      with Some show ?thesis by simp
    qed
    show ?thesis
      using None wl wr by (simp add: paths_node_None)
  qed
qed

lemma codes_of_leaf:
  "build_codes_from_tree (Some (HuffmanNode (Some b) f l r)) = [(b, ''0'')]"
  by (simp add: build_codes_from_tree_def)

lemma codes_of_inner:
  assumes "distinct (map fst (items (HuffmanNode None f l r)))"
  shows "build_codes_from_tree (Some (HuffmanNode None f l r)) = paths (HuffmanNode None f l r) []"
proof -
  let ?L = "case l of None \<Rightarrow> [] | Some t \<Rightarrow> paths t ''0''"
  let ?R = "case r of None \<Rightarrow> [] | Some t \<Rightarrow> paths t ''1''"
  have "map fst ?L @ map fst ?R = map fst (paths (HuffmanNode None f l r) [])"
    by (cases l; cases r) (simp_all add: paths_node_None)
  also have "\<dots> = map fst (items (HuffmanNode None f l r))"
    by (rule paths_keys)
  finally have d: "distinct (map fst ?L @ map fst ?R)"
    using assms by (simp only:)
  have wl: "walk l ''0'' [] = ?L"
  proof (cases l)
    case None
    then show ?thesis by simp
  next
    case (Some t)
    have "walk (Some t) ''0'' [] = [] @ paths t ''0''"
      by (rule walk_paths) (use d Some in auto)
    with Some show ?thesis by simp
  qed
  have wr: "walk r ''1'' ?L = ?L @ ?R"
  proof (cases r)
    case None
    then show ?thesis by simp
  next
    case (Some t)
    have "walk (Some t) ''1'' ?L = ?L @ paths t ''1''"
      by (rule walk_paths) (use d Some in auto)
    with Some show ?thesis by simp
  qed
  have "paths (HuffmanNode None f l r) [] = ?L @ ?R"
    by (cases l; cases r) (simp_all add: paths_node_None)
  then show ?thesis
    using wl wr by (simp add: build_codes_from_tree_def)
qed

section \<open>The tree built from a byte sequence\<close>

lemma build_loop_stop: "\<not> 1 < length heap \<Longrightarrow> build_loop heap = Inr heap"
  by (subst build_loop.simps) simp

lemma build_loop_step:
  assumes "1 < length heap"
  shows "\<exists>l h1 r h2. heappop heap = Inr (l, h1) \<and> heappop h1 = Inr (r, h2) \<and>
     build_loop heap =
       build_loop (heappush h2 (HuffmanNode None (freq l + freq r) (Some l) (Some r)))"
proof -
  from assms have "heap \<noteq> []" by auto
  then obtain l h1 where p1: "heappop heap = Inr (l, h1)"
    using heappop_nonempty by blast
  then have "length heap = Suc (length h1)" by (rule length_heappop)
  with assms have "h1 \<noteq> []" by auto
  then obtain r h2 where p2: "heappop h1 = Inr (r, h2)"
    using heappop_nonempty by blast
  have "build_loop heap =
      build_loop (heappush h2 (HuffmanNode None (freq l + freq r) (Some l) (Some r)))"
    using assms p1 p2 by (subst build_loop.simps) simp
  with p1 p2 show ?thesis by blast
qed

text \<open>Proof device: the leaves of all the trees in the heap, as a multiset.\<close>

definition forest_items :: "HuffmanNode list \<Rightarrow> (byte \<times> nat) multiset" where
  "forest_items heap = (\<Sum>t\<in>#mset heap. mset (items t))"

lemma forest_items_cong: "mset h = mset h' \<Longrightarrow> forest_items h = forest_items h'"
  by (simp add: forest_items_def)

lemma build_loop_items:
  "heap \<noteq> [] \<Longrightarrow> \<exists>root. build_loop heap = Inr [root] \<and> mset (items root) = forest_items heap"
proof (induction "length heap" arbitrary: heap rule: less_induct)
  case less
  show ?case
  proof (cases "1 < length heap")
    case False
    with less.prems obtain root where h: "heap = [root]"
      by (cases heap) auto
    then show ?thesis
      by (simp add: build_loop_stop forest_items_def)
  next
    case True
    from build_loop_step [OF True] obtain l h1 r h2 where
      p1: "heappop heap = Inr (l, h1)" and p2: "heappop h1 = Inr (r, h2)" and
      bl: "build_loop heap =
        build_loop (heappush h2 (HuffmanNode None (freq l + freq r) (Some l) (Some r)))"
      by blast
    let ?m = "HuffmanNode None (freq l + freq r) (Some l) (Some r)"
    let ?h = "heappush h2 ?m"
    have len: "length heap = Suc (length h1)" "length h1 = Suc (length h2)"
      using p1 p2 by (auto dest: length_heappop)
    have ms: "mset heap = add_mset l (add_mset r (mset h2))"
      using mset_heappop [OF p1] mset_heappop [OF p2] by simp
    have "length ?h < length heap" "?h \<noteq> []"
      using len by (auto simp: length_0_conv [symmetric] simp del: length_0_conv)
    from less.hyps [OF this] obtain root where
      r: "build_loop ?h = Inr [root]" "mset (items root) = forest_items ?h" by blast
    have "forest_items ?h = forest_items heap"
      by (simp add: forest_items_def ms)
    with r bl show ?thesis by simp
  qed
qed

lemma forest_items_leaves:
  "forest_items (map (\<lambda>(b, f). HuffmanNode (Some b) f None None) d) = mset d"
  by (induction d) (auto simp: forest_items_def)

lemma build_tree_result:
  assumes "data \<noteq> []"
  shows "\<exists>root. build_huffman_tree_from_bytes data = Inr (Some root) \<and>
    mset (items root) = mset (Counter data)"
proof -
  let ?ini = "map (\<lambda>(b, f). HuffmanNode (Some b) f None None) (Counter data)"
  let ?h = "heapify ?ini"
  have "length ?h = length (Counter data)" by simp
  moreover have "Counter data \<noteq> []" using assms by (simp add: Counter_Nil_iff)
  ultimately have ne: "?h \<noteq> []" by (metis length_0_conv)
  from build_loop_items [OF ne] obtain root where
    r: "build_loop ?h = Inr [root]" "mset (items root) = forest_items ?h" by blast
  have e1: "forest_items ?h = forest_items ?ini"
    by (rule forest_items_cong) simp
  have e2: "forest_items ?ini = mset (Counter data)"
    by (rule forest_items_leaves)
  have "mset (items root) = mset (Counter data)"
    using r(2) e1 e2 by simp
  moreover have "build_huffman_tree_from_bytes data = Inr (Some root)"
    using ne r(1) by (simp add: build_huffman_tree_from_bytes_def Let_def)
  ultimately show ?thesis by blast
qed

lemma build_tree_empty: "build_huffman_tree_from_bytes [] = Inr None"
  by (simp add: build_huffman_tree_from_bytes_def Counter_def heapify_def)

section \<open>Decoding with a prefix-free table\<close>

lemma reverse_map_snoc:
  "reverse_map (T @ [(k, v)]) = dict_set (reverse_map T) v k"
  by (simp add: reverse_map_def)

lemma reverse_map_hit:
  "distinct (map snd T) \<Longrightarrow> (b, c) \<in> set T \<Longrightarrow> dict_get (reverse_map T) c = Some b"
proof (induction T rule: rev_induct)
  case Nil
  then show ?case by simp
next
  case (snoc kv T)
  obtain k v where kv: "kv = (k, v)" by (cases kv)
  show ?case
  proof (cases "(b, c) = (k, v)")
    case True
    then show ?thesis by (simp add: kv reverse_map_snoc dict_get_dict_set)
  next
    case False
    with snoc.prems kv have in_T: "(b, c) \<in> set T" by auto
    from snoc.prems(1) kv have "v \<notin> snd ` set T" "distinct (map snd T)" by auto
    with in_T have "c \<noteq> v" by force
    with snoc.IH [OF \<open>distinct (map snd T)\<close> in_T] show ?thesis
      by (simp add: kv reverse_map_snoc dict_get_dict_set)
  qed
qed

lemma reverse_map_miss:
  "c \<notin> snd ` set T \<Longrightarrow> dict_get (reverse_map T) c = None"
proof (induction T rule: rev_induct)
  case Nil
  show ?case by (simp add: reverse_map_def dict_get_def)
next
  case (snoc kv T)
  obtain k v where kv: "kv = (k, v)" by (cases kv)
  with snoc.prems have "c \<noteq> v" "c \<notin> snd ` set T" by auto
  with snoc.IH show ?case
    by (simp add: kv reverse_map_snoc dict_get_dict_set)
qed

lemma decode_code:
  assumes D: "distinct (map snd T)"
    and P: "\<And>x y. x \<in> snd ` set T \<Longrightarrow> y \<in> snd ` set T \<Longrightarrow> prefix x y \<Longrightarrow> x = y"
    and bc: "(b, c) \<in> set T"
  shows "cur @ bits = c \<Longrightarrow> bits \<noteq> [] \<Longrightarrow>
    decode_loop (reverse_map T) bits (cur, out) = ([], out @ [b])"
proof (induction bits arbitrary: cur)
  case Nil
  then show ?case by simp
next
  case (Cons x xs)
  show ?case
  proof (cases "xs = []")
    case True
    with Cons.prems have "cur @ [x] = c" by simp
    then have "dict_get (reverse_map T) (cur @ [x]) = Some b"
      using reverse_map_hit [OF D bc] by simp
    with True show ?thesis by (simp add: decode_step_eq)
  next
    case False
    have pre: "prefix (cur @ [x]) c" using Cons.prems by (auto simp: prefix_def)
    have "cur @ [x] \<notin> snd ` set T"
    proof
      assume "cur @ [x] \<in> snd ` set T"
      moreover have "c \<in> snd ` set T" using bc by force
      ultimately have "cur @ [x] = c" using pre by (rule P)
      with Cons.prems(1) have "cur @ [x] = cur @ x # xs" by simp
      with False show False by simp
    qed
    then have "dict_get (reverse_map T) (cur @ [x]) = None"
      by (rule reverse_map_miss)
    moreover have "decode_loop (reverse_map T) xs (cur @ [x], out) = ([], out @ [b])"
      by (rule Cons.IH) (use Cons.prems False in simp_all)
    ultimately show ?thesis by (simp add: decode_step_eq)
  qed
qed

lemma decode_concat:
  assumes D: "distinct (map snd T)"
    and P: "\<And>x y. x \<in> snd ` set T \<Longrightarrow> y \<in> snd ` set T \<Longrightarrow> prefix x y \<Longrightarrow> x = y"
    and N: "[] \<notin> snd ` set T"
  shows "set S \<subseteq> fst ` set T \<Longrightarrow>
    decode_loop (reverse_map T) (concat (map (\<lambda>s. the (dict_get T s)) S)) ([], out) = ([], out @ S)"
proof (induction S arbitrary: out)
  case Nil
  show ?case by simp
next
  case (Cons s S)
  from Cons.prems have "s \<in> fst ` set T" by simp
  then obtain c where c: "dict_get T s = Some c"
    by (cases "dict_get T s") (simp_all add: dict_get_None_iff)
  then have in_T: "(s, c) \<in> set T"
    by (simp add: dict_get_def map_of_SomeD)
  with N have ne: "c \<noteq> []" by force
  have "decode_loop (reverse_map T) c ([], out) = ([], out @ [s])"
    by (rule decode_code [OF D P in_T]) (use ne in simp_all)
  moreover have "decode_loop (reverse_map T) (concat (map (\<lambda>s. the (dict_get T s)) S))
      ([], out @ [s]) = ([], (out @ [s]) @ S)"
    by (rule Cons.IH) (use Cons.prems in simp)
  ultimately show ?case
    by (simp add: c decode_loop_append)
qed

lemma paths_inner_nonempty:
  assumes "(b, c) \<in> set (paths (HuffmanNode None f l r) [])"
  shows "c \<noteq> []"
proof -
  from assms have
    "(\<exists>t. l = Some t \<and> (b, c) \<in> set (paths t ''0'')) \<or>
     (\<exists>t. r = Some t \<and> (b, c) \<in> set (paths t ''1''))"
    by (cases l; cases r) (auto simp: paths_node_None)
  then have "prefix ''0'' c \<or> prefix ''1'' c"
    by (auto dest: paths_prefix)
  then show ?thesis by auto
qed

lemma table_props:
  assumes "data \<noteq> []"
  shows "\<exists>root. build_huffman_tree_from_bytes data = Inr (Some root) \<and>
    mset (items root) = mset (Counter data) \<and>
    distinct (map fst (build_codes_from_tree (Some root))) \<and>
    fst ` set (build_codes_from_tree (Some root)) = set data \<and>
    pf (map snd (build_codes_from_tree (Some root))) \<and>
    [] \<notin> snd ` set (build_codes_from_tree (Some root))"
proof -
  from build_tree_result [OF assms] obtain root where
    r: "build_huffman_tree_from_bytes data = Inr (Some root)"
    and m: "mset (items root) = mset (Counter data)" by blast
  from m have "mset (map fst (items root)) = mset (map fst (Counter data))"
    by (metis mset_map)
  then have dk: "distinct (map fst (items root))"
    and sk: "set (map fst (items root)) = set data"
    using distinct_Counter [of data] keys_Counter [of data]
    by (metis mset_eq_imp_distinct_iff, metis mset_eq_setD set_map)
  obtain bv f l rr where root: "root = HuffmanNode bv f l rr" by (cases root)
  let ?T = "build_codes_from_tree (Some root)"
  have "distinct (map fst ?T) \<and> fst ` set ?T = set data \<and> pf (map snd ?T) \<and> [] \<notin> snd ` set ?T"
  proof (cases bv)
    case (Some b)
    then have T: "?T = [(b, ''0'')]" by (simp add: root codes_of_leaf)
    have "set data = {b}" using sk Some root by simp
    then show ?thesis by (simp add: T pf_def)
  next
    case None
    then have T: "?T = paths root []"
      using dk by (simp add: root codes_of_inner)
    have "map fst ?T = map fst (items root)" by (simp add: T paths_keys)
    moreover have "pf (map snd ?T)" by (simp add: T paths_pf)
    moreover have "[] \<notin> snd ` set ?T"
    proof
      assume "[] \<in> snd ` set ?T"
      then have "[] \<in> snd ` set (paths root [])"
        by (simp only: T)
      then obtain b where "(b, []) \<in> set (paths (HuffmanNode None f l rr) [])"
        using None by (auto simp: root)
      then show False by (auto dest: paths_inner_nonempty)
    qed
    ultimately show ?thesis using dk sk by (metis set_map)
  qed
  with r m show ?thesis by blast
qed

section \<open>Properties of the codec\<close>

lemma pf_rule:
  "pf (map snd T) \<Longrightarrow> x \<in> snd ` set T \<Longrightarrow> y \<in> snd ` set T \<Longrightarrow> prefix x y \<Longrightarrow> x = y"
  unfolding pf_def set_map by blast

lemma compress_nonempty:
  assumes "data \<noteq> []"
  shows "\<exists>root. build_huffman_tree_from_bytes data = Inr (Some root) \<and>
    huffman_compress_bytes data =
      Inr (concat (map (\<lambda>b. the (dict_get (build_codes_from_tree (Some root)) b)) data),
           build_codes_from_tree (Some root)) \<and>
    huffman_decompress_bits
      (concat (map (\<lambda>b. the (dict_get (build_codes_from_tree (Some root)) b)) data))
      (build_codes_from_tree (Some root)) = data"
proof -
  from table_props [OF assms] obtain root where
    r: "build_huffman_tree_from_bytes data = Inr (Some root)"
    and dk: "distinct (map fst (build_codes_from_tree (Some root)))"
    and sk: "fst ` set (build_codes_from_tree (Some root)) = set data"
    and p: "pf (map snd (build_codes_from_tree (Some root)))"
    and n: "[] \<notin> snd ` set (build_codes_from_tree (Some root))"
    by blast
  let ?T = "build_codes_from_tree (Some root)"
  let ?bits = "concat (map (\<lambda>b. the (dict_get ?T b)) data)"
  have "\<forall>b\<in>set data. dict_get ?T b \<noteq> None"
    using sk by (simp add: dict_get_None_iff)
  then have enc: "encode_bits ?T data = Inr ?bits"
    by (rule encode_bits_ok)
  have c: "huffman_compress_bytes data = Inr (?bits, ?T)"
    using r enc by (simp add: huffman_compress_bytes_def Let_def)
  have "decode_loop (reverse_map ?T) ?bits ([], []) = ([], [] @ data)"
  proof (rule decode_concat)
    show "distinct (map snd ?T)" using p by (simp add: pf_def)
    show "\<And>x y. x \<in> snd ` set ?T \<Longrightarrow> y \<in> snd ` set ?T \<Longrightarrow> prefix x y \<Longrightarrow> x = y"
      using p by (rule pf_rule)
    show "[] \<notin> snd ` set ?T" by (rule n)
    show "set data \<subseteq> fst ` set ?T" using sk by simp
  qed
  then have "huffman_decompress_bits ?bits ?T = data"
    by (simp add: huffman_decompress_bits_def)
  with r c show ?thesis by blast
qed

text \<open>
  Claim C1: for every byte sequence \<open>S\<close>, \<open>huffman_compress_bytes S\<close> succeeds with a bit
  stream and a code table, and decoding that stream with that table gives back \<open>S\<close>.
\<close>

theorem huffman_round_trip:
  "\<exists>bits codes. huffman_compress_bytes S = Inr (bits, codes) \<and>
     huffman_decompress_bits bits codes = S"
proof (cases "S = []")
  case True
  then show ?thesis by (simp add: compress_empty decompress_empty)
next
  case False
  from compress_nonempty [OF False] show ?thesis by blast
qed

theorem huffman_round_trip_witness:
  "huffman_compress_bytes [97, 97, 97, 98, 98, 99] =
     Inr (''000111110'', [(97, ''0''), (99, ''10''), (98, ''11'')]) \<and>
   huffman_decompress_bits ''000111110'' [(97, ''0''), (99, ''10''), (98, ''11'')] =
     [97, 97, 97, 98, 98, 99]"
proof -
  have c: "huffman_compress_bytes [97, 97, 97, 98, 98, 99] =
     Inr (''000111110'', [(97, ''0''), (99, ''10''), (98, ''11'')])"
    by code_simp
  from huffman_round_trip [of "[97, 97, 97, 98, 98, 99]"] c show ?thesis by auto
qed

lemma table_entries:
  assumes "distinct (map snd T)" "(a, ca) \<in> set T" "(b, cb) \<in> set T" "a \<noteq> b"
  shows "ca \<noteq> cb"
proof -
  from assms(1) have "inj_on snd (set T)" by (simp add: distinct_map)
  with assms(2,3,4) show ?thesis unfolding inj_on_def by fastforce
qed

text \<open>
  Claim C4: for a byte sequence with at least two distinct symbols the tree is built,
  every symbol has a code in the table of \<open>build_codes_from_tree\<close>, and two different
  symbols never have the same code, nor is the code of one a prefix of the code of the
  other.
\<close>

theorem codes_injective_prefix_free:
  assumes "2 \<le> card (set S)"
  shows "\<exists>root. build_huffman_tree_from_bytes S = Inr (Some root) \<and>
    (\<forall>a\<in>set S. dict_get (build_codes_from_tree (Some root)) a \<noteq> None) \<and>
    (\<forall>a b ca cb. dict_get (build_codes_from_tree (Some root)) a = Some ca \<and>
       dict_get (build_codes_from_tree (Some root)) b = Some cb \<and> a \<noteq> b \<longrightarrow>
       ca \<noteq> cb \<and> \<not> prefix ca cb)"
proof -
  from assms have "S \<noteq> []" by auto
  from table_props [OF this] obtain root where
    r: "build_huffman_tree_from_bytes S = Inr (Some root)"
    and sk: "fst ` set (build_codes_from_tree (Some root)) = set S"
    and p: "pf (map snd (build_codes_from_tree (Some root)))"
    by blast
  let ?T = "build_codes_from_tree (Some root)"
  have k: "\<forall>a\<in>set S. dict_get ?T a \<noteq> None"
    using sk by (simp add: dict_get_None_iff)
  have "ca \<noteq> cb \<and> \<not> prefix ca cb"
    if "dict_get ?T a = Some ca" "dict_get ?T b = Some cb" "a \<noteq> b" for a b ca cb
  proof -
    from that have m: "(a, ca) \<in> set ?T" "(b, cb) \<in> set ?T"
      by (simp_all add: dict_get_def map_of_SomeD)
    have d: "distinct (map snd ?T)" using p by (simp add: pf_def)
    from d m that(3) have ne: "ca \<noteq> cb" by (rule table_entries)
    have "ca \<in> snd ` set ?T" "cb \<in> snd ` set ?T" using m by force+
    with p ne have "\<not> prefix ca cb" by (auto dest: pf_rule)
    with ne show ?thesis by simp
  qed
  with r k show ?thesis by blast
qed

theorem codes_injective_prefix_free_witness:
  "2 \<le> card (set [1, 2 :: byte]) \<and>
   (\<exists>root. build_huffman_tree_from_bytes [1, 2] = Inr (Some root) \<and>
    (\<forall>a\<in>set [1, 2]. dict_get (build_codes_from_tree (Some root)) a \<noteq> None) \<and>
    (\<forall>a b ca cb. dict_get (build_codes_from_tree (Some root)) a = Some ca \<and>
       dict_get (build_codes_from_tree (Some root)) b = Some cb \<and> a \<noteq> b \<longrightarrow>
       ca \<noteq> cb \<and> \<not> prefix ca cb))"
proof -
  have h: "2 \<le> card (set [1, 2 :: byte])" by simp
  from codes_injective_prefix_free [OF h] h show ?thesis by blast
qed

lemma single_key_dict:
  assumes "distinct (map fst d)" "fst ` set d = {a}"
  shows "\<exists>v. d = [(a, v)]"
proof (cases d)
  case Nil
  with assms(2) show ?thesis by simp
next
  case (Cons x xs)
  obtain k v where x: "x = (k, v)" by (cases x)
  from assms(2) Cons x have k: "k = a" by auto
  have "xs = []"
  proof (cases xs)
    case Nil
    then show ?thesis .
  next
    case (Cons y ys)
    with assms(2) \<open>d = x # xs\<close> have "fst y = a" by auto
    with assms(1) \<open>d = x # xs\<close> Cons x k show ?thesis by auto
  qed
  with Cons x k show ?thesis by simp
qed

lemma count_list_all_same: "set S \<subseteq> {a} \<Longrightarrow> count_list S a = length S"
  by (induction S) auto

lemma concat_single:
  "set S \<subseteq> {a} \<Longrightarrow>
   concat (map (\<lambda>b. the (dict_get [(a, ''0'')] b)) S) = replicate (length S) CHR ''0''"
  by (induction S) (auto simp: dict_get_def)

text \<open>
  Claim C5: for a non-empty byte sequence with exactly one distinct symbol,
  \<open>huffman_compress_bytes\<close> gives that symbol the code 0, and the bit stream is one 0 per
  input byte, so its length is the input length.
\<close>

theorem single_symbol_code:
  assumes "S \<noteq> []" "set S = {a}"
  shows "huffman_compress_bytes S = Inr (replicate (length S) CHR ''0'', [(a, ''0'')]) \<and>
    length (replicate (length S) CHR ''0'') = length S"
proof -
  have "\<exists>v. Counter S = [(a, v)]"
    by (rule single_key_dict) (simp_all add: distinct_Counter keys_Counter assms(2))
  then obtain v where C: "Counter S = [(a, v)]" by blast
  have t: "build_huffman_tree_from_bytes S = Inr (Some (HuffmanNode (Some a) v None None))"
    by (simp add: build_huffman_tree_from_bytes_def C heapify_def build_loop_stop)
  have T: "build_codes_from_tree (Some (HuffmanNode (Some a) v None None)) = [(a, ''0'')]"
    by (rule codes_of_leaf)
  have "\<forall>b\<in>set S. dict_get [(a, ''0'')] b \<noteq> None"
    using assms(2) by (simp add: dict_get_def)
  then have "encode_bits [(a, ''0'')] S =
      Inr (concat (map (\<lambda>b. the (dict_get [(a, ''0'')] b)) S))"
    by (rule encode_bits_ok)
  moreover have "concat (map (\<lambda>b. the (dict_get [(a, ''0'')] b)) S) =
      replicate (length S) CHR ''0''"
    by (rule concat_single) (simp add: assms(2))
  ultimately show ?thesis
    using t T by (simp add: huffman_compress_bytes_def Let_def)
qed

theorem single_symbol_code_witness:
  "[65, 65, 65, 65 :: byte] \<noteq> [] \<and> set [65, 65, 65, 65 :: byte] = {65} \<and>
   huffman_compress_bytes [65, 65, 65, 65] = Inr (''0000'', [(65, ''0'')])"
proof -
  have h: "[65, 65, 65, 65 :: byte] \<noteq> []" "set [65, 65, 65, 65 :: byte] = {65}" by simp_all
  have "replicate (length [65, 65, 65, 65 :: byte]) CHR ''0'' = ''0000''"
    by (simp add: numeral_eq_Suc)
  with single_symbol_code [OF h] h show ?thesis by simp
qed

section \<open>Prefix-free codes and the exchange step\<close>

text \<open>
  A code is binary when it consists of the characters 0 and 1; \<open>other\<close> is the other
  bit. A multiset of codes is a prefix-free code (\<open>pfc\<close>) when its members are binary,
  occur once, and none is a prefix of another. An assignment of codes to weights is a
  multiset of pairs, and \<open>cost\<close> is its weighted length.
\<close>

definition bin :: "string \<Rightarrow> bool" where
  "bin c \<longleftrightarrow> set c \<subseteq> {CHR ''0'', CHR ''1''}"

definition other :: "char \<Rightarrow> char" where
  "other c = (if c = CHR ''0'' then CHR ''1'' else CHR ''0'')"

definition pfc :: "string multiset \<Rightarrow> bool" where
  "pfc C \<longleftrightarrow> (\<forall>c\<in>#C. bin c) \<and> (\<forall>c. count C c \<le> 1) \<and>
     (\<forall>x\<in>#C. \<forall>y\<in>#C. prefix x y \<longrightarrow> x = y)"

definition cost :: "(nat \<times> string) multiset \<Rightarrow> nat" where
  "cost P = (\<Sum>(w, c)\<in>#P. w * length c)"

lemma cost_add [simp]: "cost (add_mset (w, c) P) = w * length c + cost P"
  by (simp add: cost_def)

lemma cost_empty [simp]: "cost {#} = 0"
  by (simp add: cost_def)

lemma bin_snoc: "bin (w @ [c]) \<longleftrightarrow> bin w \<and> (c = CHR ''0'' \<or> c = CHR ''1'')"
  by (auto simp: bin_def)

lemma other_cases: "c = CHR ''0'' \<or> c = CHR ''1'' \<Longrightarrow> d = CHR ''0'' \<or> d = CHR ''1'' \<Longrightarrow>
  d = c \<or> d = other c"
  by (auto simp: other_def)

lemma other_neq: "other c \<noteq> c"
  by (simp add: other_def)

lemma pfc_sub: "pfc (add_mset x C) \<Longrightarrow> pfc C"
proof -
  assume a: "pfc (add_mset x C)"
  have "count C c \<le> 1" for c
  proof -
    from a have "count (add_mset x C) c \<le> 1" by (simp add: pfc_def)
    then show ?thesis by (simp split: if_splits)
  qed
  with a show ?thesis by (simp add: pfc_def)
qed

lemma pfc_notin: "pfc (add_mset x C) \<Longrightarrow> x \<notin># C"
proof -
  assume a: "pfc (add_mset x C)"
  then have "count (add_mset x C) x \<le> 1" unfolding pfc_def by blast
  then have "count C x = 0" by simp
  then show ?thesis by (simp add: not_in_iff)
qed

lemma pfc_shorten:
  assumes p: "pfc (add_mset (w @ [c]) R)"
    and len: "\<forall>y\<in>#R. length y \<le> Suc (length w)"
    and sib: "w @ [other c] \<notin># R"
  shows "pfc (add_mset w R)"
proof -
  have pR: "pfc R" using p by (rule pfc_sub)
  have cR: "w @ [c] \<notin># R" using p by (rule pfc_notin)
  from p have bw: "bin (w @ [c])" by (simp add: pfc_def)
  then have bc: "c = CHR ''0'' \<or> c = CHR ''1''" and binw: "bin w" by (simp_all add: bin_snoc)
  have no_ext: "y = w" if "y \<in># R" "prefix w y" for y
  proof (rule ccontr)
    assume "y \<noteq> w"
    from that(2) obtain zs where zs: "y = w @ zs" by (auto simp: prefix_def)
    with \<open>y \<noteq> w\<close> have "zs \<noteq> []" by auto
    then obtain d rest where "zs = d # rest" by (cases zs) auto
    with zs have y: "y = w @ d # rest" by simp
    from len that(1) have "length y \<le> Suc (length w)" by blast
    with y have "rest = []" by simp
    with y have y': "y = w @ [d]" by simp
    from pR that(1) have "bin y" by (simp add: pfc_def)
    with y' have "d = CHR ''0'' \<or> d = CHR ''1''" by (simp add: bin_snoc)
    with bc have "d = c \<or> d = other c" by (rule other_cases)
    with y' that(1) cR sib show False by auto
  qed
  have w_notin: "w \<notin># R"
  proof
    assume "w \<in># R"
    then have "w \<in># add_mset (w @ [c]) R" "w @ [c] \<in># add_mset (w @ [c]) R" by simp_all
    moreover have "prefix w (w @ [c])" by simp
    ultimately have "w = w @ [c]" using p unfolding pfc_def by blast
    then show False by simp
  qed
  have no_pre: "x = w" if "x \<in># R" "prefix x w" for x
  proof -
    from that(2) have "prefix x (w @ [c])" by (simp add: prefix_prefix)
    moreover have "x \<in># add_mset (w @ [c]) R" "w @ [c] \<in># add_mset (w @ [c]) R"
      using that(1) by simp_all
    ultimately have "x = w @ [c]" using p unfolding pfc_def by blast
    with that(2) show ?thesis by (auto dest: prefix_length_le)
  qed
  have "count (add_mset w R) z \<le> 1" for z
  proof (cases "z = w")
    case True
    with w_notin show ?thesis by (simp add: count_eq_zero_iff)
  next
    case False
    with pR show ?thesis by (simp add: pfc_def)
  qed
  moreover have "\<forall>z\<in>#add_mset w R. bin z"
    using binw pR by (simp add: pfc_def)
  moreover have "\<forall>x\<in>#add_mset w R. \<forall>y\<in>#add_mset w R. prefix x y \<longrightarrow> x = y"
    using pR no_ext no_pre unfolding pfc_def by auto
  ultimately show ?thesis unfolding pfc_def by blast
qed

lemma ex_max_mset:
  fixes f :: "'a \<Rightarrow> nat"
  assumes "M \<noteq> {#}"
  shows "\<exists>x\<in>#M. \<forall>y\<in>#M. f y \<le> f x"
proof -
  let ?S = "f ` set_mset M"
  have fin: "finite ?S" and ne: "?S \<noteq> {}" using assms by auto
  from Max_in [OF fin ne] obtain x where x: "x \<in># M" "f x = Max ?S" by auto
  have "f y \<le> f x" if "y \<in># M" for y
    using Max_ge [OF fin, of "f y"] that x(2) by simp
  with x(1) show ?thesis by blast
qed

lemma sibling_exists:
  assumes "pfc (image_mset snd P)" "2 \<le> size P"
  shows "\<exists>P1 wx wy w c R.
    P1 = add_mset (wx, w @ [c]) (add_mset (wy, w @ [other c]) R) \<and>
    pfc (image_mset snd P1) \<and> image_mset fst P1 = image_mset fst P \<and>
    cost P1 \<le> cost P \<and> (\<forall>x\<in>#P1. length (snd x) \<le> Suc (length w))"
  using assms
proof (induction "\<Sum>x\<in>#P. length (snd x)" arbitrary: P rule: less_induct)
  case less
  from less.prems(2) have "P \<noteq> {#}" by auto
  from ex_max_mset [OF this, of "\<lambda>x. length (snd x)"] obtain x where
    x: "x \<in># P" and mx: "\<forall>y\<in>#P. length (snd y) \<le> length (snd x)" by blast
  obtain wx cx where xe: "x = (wx, cx)" by (cases x)
  define Q where "Q = P - {#x#}"
  have P: "P = add_mset (wx, cx) Q" using x by (simp add: Q_def xe)
  have pc: "pfc (add_mset cx (image_mset snd Q))" using less.prems(1) by (simp add: P)
  have "size Q \<ge> 1" using less.prems(2) by (simp add: P)
  then have "Q \<noteq> {#}" by auto
  then obtain y where y: "y \<in># Q" by auto
  have "cx \<noteq> []"
  proof
    assume "cx = []"
    then have "prefix cx (snd y)" by simp
    moreover have "cx \<in># add_mset cx (image_mset snd Q)"
      "snd y \<in># add_mset cx (image_mset snd Q)" using y by simp_all
    ultimately have "cx = snd y" using pc unfolding pfc_def by blast
    with y have "cx \<in># image_mset snd Q" by auto
    with pfc_notin [OF pc] show False by simp
  qed
  then obtain w c where cx: "cx = w @ [c]" by (cases cx rule: rev_cases) auto
  have len: "\<forall>z\<in>#P. length (snd z) \<le> Suc (length w)"
    using mx by (simp add: xe cx)
  show ?case
  proof (cases "w @ [other c] \<in># image_mset snd Q")
    case True
    then obtain z where z: "z \<in># Q" "snd z = w @ [other c]" by auto
    obtain wy where ze: "z = (wy, w @ [other c])" using z(2) by (cases z) auto
    define R where "R = Q - {#z#}"
    have "Q = add_mset (wy, w @ [other c]) R" using z(1) by (simp add: R_def ze)
    then have e: "P = add_mset (wx, w @ [c]) (add_mset (wy, w @ [other c]) R)"
      by (simp add: P cx)
    show ?thesis
      apply (rule exI [of _ P], rule exI [of _ wx], rule exI [of _ wy], rule exI [of _ w],
          rule exI [of _ c], rule exI [of _ R])
      using e less.prems(1) len by simp
  next
    case False
    define P2 where "P2 = add_mset (wx, w) Q"
    have "pfc (add_mset w (image_mset snd Q))"
    proof (rule pfc_shorten)
      show "pfc (add_mset (w @ [c]) (image_mset snd Q))" using pc by (simp add: cx)
      show "\<forall>y\<in>#image_mset snd Q. length y \<le> Suc (length w)"
        using len by (auto simp: P)
      show "w @ [other c] \<notin># image_mset snd Q" by (rule False)
    qed
    then have p2: "pfc (image_mset snd P2)" by (simp add: P2_def)
    have s2: "2 \<le> size P2" using less.prems(2) by (simp add: P2_def P)
    have m2: "(\<Sum>x\<in>#P2. length (snd x)) < (\<Sum>x\<in>#P. length (snd x))"
      by (simp add: P2_def P cx)
    from less.hyps [OF m2 p2 s2] obtain P1 wx' wy' w' c' R where
      r: "P1 = add_mset (wx', w' @ [c']) (add_mset (wy', w' @ [other c']) R)"
      "pfc (image_mset snd P1)" "image_mset fst P1 = image_mset fst P2"
      "cost P1 \<le> cost P2" "\<forall>x\<in>#P1. length (snd x) \<le> Suc (length w')"
      by blast
    have f2: "image_mset fst P2 = image_mset fst P" by (simp add: P2_def P)
    have c2: "cost P2 \<le> cost P" by (simp add: P2_def P cx)
    have c1: "cost P1 \<le> cost P" using r(4) c2 by simp
    show ?thesis
      apply (rule exI [of _ P1], rule exI [of _ wx'], rule exI [of _ wy'], rule exI [of _ w'],
          rule exI [of _ c'], rule exI [of _ R])
      using r(1,2,3,5) f2 c1 by simp
  qed
qed

lemma swap_ineq:
  fixes a u ls ld :: nat
  assumes "a \<le> u" "ld \<le> ls"
  shows "a * ls + u * ld \<le> u * ls + a * ld"
proof -
  from assms obtain k m where "u = a + k" "ls = ld + m"
    by (metis le_Suc_ex)
  then show ?thesis by (simp add: algebra_simps)
qed

lemma swap_first:
  assumes P: "P = add_mset (u, s) Q"
    and a: "a \<in># image_mset fst P" "a \<le> u"
    and len: "\<forall>x\<in>#P. length (snd x) \<le> length s"
  shows "\<exists>Q'. image_mset fst Q' = image_mset fst P - {#a#} \<and>
    image_mset snd Q' = image_mset snd Q \<and> cost (add_mset (a, s) Q') \<le> cost P"
proof (cases "a = u")
  case True
  then show ?thesis by (intro exI [of _ Q]) (simp add: P)
next
  case False
  with a(1) have "a \<in># image_mset fst Q" by (simp add: P)
  then obtain z where z: "z \<in># Q" "fst z = a" by auto
  obtain d where ze: "z = (a, d)" using z(2) by (cases z) auto
  define Q0 where "Q0 = Q - {#z#}"
  have Q: "Q = add_mset (a, d) Q0" using z(1) by (simp add: Q0_def ze)
  have "length d \<le> length s" using len by (simp add: P Q)
  with a(2) have "a * length s + u * length d \<le> u * length s + a * length d"
    by (rule swap_ineq)
  then show ?thesis
    by (intro exI [of _ "add_mset (u, d) Q0"]) (simp add: P Q)
qed

lemma exchange:
  assumes v: "pfc (image_mset snd P)" and sz: "2 \<le> size P"
    and a: "a \<in># image_mset fst P" "\<forall>w\<in>#image_mset fst P. a \<le> w"
    and b: "b \<in># image_mset fst P - {#a#}" "\<forall>w\<in>#image_mset fst P - {#a#}. b \<le> w"
  shows "\<exists>P'. pfc (image_mset snd P') \<and>
    image_mset fst P' = add_mset (a + b) (image_mset fst P - {#a#} - {#b#}) \<and>
    cost P' + a + b \<le> cost P"
proof -
  from sibling_exists [OF v sz] obtain P1 wx wy w c R where
    P1: "P1 = add_mset (wx, w @ [c]) (add_mset (wy, w @ [other c]) R)"
    and v1: "pfc (image_mset snd P1)" and f1: "image_mset fst P1 = image_mset fst P"
    and c1: "cost P1 \<le> cost P" and l1: "\<forall>x\<in>#P1. length (snd x) \<le> Suc (length w)"
    by blast
  define Q where "Q = add_mset (wy, w @ [other c]) R"
  have P1Q: "P1 = add_mset (wx, w @ [c]) Q" by (simp add: P1 Q_def)
  have "wx \<in># image_mset fst P" using f1 [symmetric] by (simp add: P1)
  with a(2) have awx: "a \<le> wx" by blast
  have "\<exists>Q'. image_mset fst Q' = image_mset fst P1 - {#a#} \<and>
    image_mset snd Q' = image_mset snd Q \<and> cost (add_mset (a, w @ [c]) Q') \<le> cost P1"
  proof (rule swap_first [OF P1Q _ awx])
    show "a \<in># image_mset fst P1" using a(1) f1 by simp
    show "\<forall>x\<in>#P1. length (snd x) \<le> length (w @ [c])" using l1 by simp
  qed
  then obtain Q' where fQ': "image_mset fst Q' = image_mset fst P - {#a#}"
    and sQ': "image_mset snd Q' = image_mset snd Q"
    and cQ': "cost (add_mset (a, w @ [c]) Q') \<le> cost P1"
    using f1 by auto
  have lQ: "\<forall>y\<in>#image_mset snd Q. length y \<le> Suc (length w)"
    using l1 by (auto simp: P1Q)
  have "w @ [other c] \<in># image_mset snd Q'" by (simp add: sQ' Q_def)
  then obtain z where z: "z \<in># Q'" "snd z = w @ [other c]" by auto
  obtain wz where ze: "z = (wz, w @ [other c])" using z(2) by (cases z) auto
  define Q2 where "Q2 = Q' - {#z#}"
  have Q'e: "Q' = add_mset (wz, w @ [other c]) Q2" using z(1) by (simp add: Q2_def ze)
  have "wz \<in># image_mset fst Q'" by (simp add: Q'e)
  with b(2) fQ' have bwz: "b \<le> wz" by simp
  have "\<exists>Q3. image_mset fst Q3 = image_mset fst Q' - {#b#} \<and>
    image_mset snd Q3 = image_mset snd Q2 \<and> cost (add_mset (b, w @ [other c]) Q3) \<le> cost Q'"
  proof (rule swap_first [OF Q'e _ bwz])
    show "b \<in># image_mset fst Q'" using b(1) fQ' by simp
    have "\<forall>y\<in>#image_mset snd Q'. length y \<le> Suc (length w)"
      using lQ by (simp add: sQ')
    then show "\<forall>x\<in>#Q'. length (snd x) \<le> length (w @ [other c])" by simp
  qed
  then obtain Q3 where fQ3: "image_mset fst Q3 = image_mset fst P - {#a#} - {#b#}"
    and sQ3: "image_mset snd Q3 = image_mset snd Q2"
    and cQ3: "cost (add_mset (b, w @ [other c]) Q3) \<le> cost Q'"
    using fQ' by auto
  have codes: "add_mset (w @ [c]) (add_mset (w @ [other c]) (image_mset snd Q3)) =
      image_mset snd P1"
  proof -
    have "add_mset (w @ [other c]) (image_mset snd Q3) = image_mset snd Q'"
      by (simp add: sQ3 Q'e)
    then show ?thesis by (simp add: sQ' P1Q)
  qed
  have p3: "pfc (add_mset (w @ [c]) (add_mset (w @ [other c]) (image_mset snd Q3)))"
    using v1 by (simp only: codes)
  then have p3': "pfc (add_mset (w @ [other c]) (add_mset (w @ [c]) (image_mset snd Q3)))"
    by (simp add: add_mset_commute)
  have "pfc (add_mset w (image_mset snd Q3))"
  proof (rule pfc_shorten)
    show "pfc (add_mset (w @ [c]) (image_mset snd Q3))" using p3' by (rule pfc_sub)
    show "w @ [other c] \<notin># image_mset snd Q3" using pfc_notin [OF p3'] by simp
    have "image_mset snd Q3 \<subseteq># image_mset snd Q"
      by (simp add: sQ3 sQ' [symmetric] Q'e)
    then show "\<forall>y\<in>#image_mset snd Q3. length y \<le> Suc (length w)"
      using lQ by (meson mset_subset_eqD)
  qed
  moreover have "cost (add_mset (a + b, w) Q3) + a + b \<le> cost P"
  proof -
    have "cost (add_mset (a + b, w) Q3) + a + b =
        a * length (w @ [c]) + cost (add_mset (b, w @ [other c]) Q3)"
      by (simp add: algebra_simps)
    also have "\<dots> \<le> a * length (w @ [c]) + cost Q'" using cQ3 by simp
    also have "\<dots> = cost (add_mset (a, w @ [c]) Q')" by simp
    also have "\<dots> \<le> cost P" using cQ' c1 by simp
    finally show ?thesis .
  qed
  ultimately show ?thesis
    by (intro exI [of _ "add_mset (a + b, w) Q3"]) (simp add: fQ3)
qed

section \<open>The heap order\<close>

text \<open>
  The heap order of \<^verbatim>\<open>heapq\<close>: \<open>heap_from s h\<close> says that every position whose parent is at
  or after \<open>s\<close> holds a node that is not smaller than its parent; \<open>heap_from 0\<close> is the
  heap invariant. \<open>desc s p\<close>: position \<open>p\<close> lies in the subtree of position \<open>s\<close>.
\<close>

definition parent :: "nat \<Rightarrow> nat" where
  "parent c = (c - 1) div 2"

definition heap_from :: "nat \<Rightarrow> HuffmanNode list \<Rightarrow> bool" where
  "heap_from s h \<longleftrightarrow>
     (\<forall>c. 0 < c \<and> c < length h \<and> s \<le> parent c \<longrightarrow> freq (h ! parent c) \<le> freq (h ! c))"

inductive desc :: "nat \<Rightarrow> nat \<Rightarrow> bool" for s :: nat where
  desc_self: "desc s s"
| desc_left: "desc s p \<Longrightarrow> desc s (2 * p + 1)"
| desc_right: "desc s p \<Longrightarrow> desc s (2 * p + 2)"

lemma parent_less: "0 < c \<Longrightarrow> parent c < c"
  by (simp add: parent_def)

lemma parent_left [simp]: "parent (2 * p + 1) = p"
  by (simp add: parent_def)

lemma parent_right [simp]: "parent (2 * p + 2) = p"
  by (simp add: parent_def)

lemma parent_Suc [simp]: "parent (Suc (2 * p)) = p" "parent (Suc (Suc (2 * p))) = p"
  by (simp_all add: parent_def)

lemma child_cases: "0 < c \<Longrightarrow> c = 2 * parent c + 1 \<or> c = 2 * parent c + 2"
  by (simp add: parent_def) arith

lemma desc_ge: "desc s p \<Longrightarrow> s \<le> p"
  by (induction rule: desc.induct) auto

lemma desc_parent: "desc s p \<Longrightarrow> p \<noteq> s \<Longrightarrow> desc s (parent p)"
  by (cases rule: desc.cases) auto

lemma desc_0: "desc 0 k"
proof (induction k rule: less_induct)
  case (less k)
  show ?case
  proof (cases "k = 0")
    case True
    then show ?thesis by (simp add: desc_self)
  next
    case False
    then have "desc 0 (parent k)" using less [of "parent k"] parent_less [of k] by simp
    then have "desc 0 (2 * parent k + 1)" "desc 0 (2 * parent k + 2)"
      by (rule desc_left, rule desc_right)
    with child_cases [of k] False show ?thesis by auto
  qed
qed

lemma siftdown_loop_heap:
  assumes "desc s pos" "pos < length heap"
    and "\<forall>c. 0 < c \<and> c < length heap \<and> s \<le> parent c \<and> c \<noteq> pos \<and> parent c \<noteq> pos \<longrightarrow>
          freq (heap ! parent c) \<le> freq (heap ! c)"
    and "\<forall>c. 0 < c \<and> c < length heap \<and> parent c = pos \<longrightarrow> freq newitem \<le> freq (heap ! c)"
    and "s < pos \<longrightarrow> (\<forall>c. 0 < c \<and> c < length heap \<and> parent c = pos \<longrightarrow>
          freq (heap ! parent pos) \<le> freq (heap ! c))"
  shows "heap_from s (siftdown_loop heap newitem s pos)"
  using assms
proof (induction heap newitem s pos rule: siftdown_loop_induct)
  case (stop heap newitem s pos)
  have "freq ((heap[pos := newitem]) ! parent c) \<le> freq ((heap[pos := newitem]) ! c)"
    if c: "0 < c" "c < length heap" "s \<le> parent c" for c
  proof -
    have pl: "parent c < c" using c(1) by (rule parent_less)
    consider "c = pos" | "c \<noteq> pos" "parent c = pos" | "c \<noteq> pos" "parent c \<noteq> pos" by blast
    then show ?thesis
    proof cases
      case 1
      with c pl have "s < pos" by simp
      with stop.hyps have "\<not> node_lt newitem (heap ! parent pos)" by (simp add: parent_def)
      then have "freq (heap ! parent pos) \<le> freq newitem" by (simp add: node_lt_def)
      with 1 pl c show ?thesis by simp
    next
      case 2
      with stop.prems(4) c have "freq newitem \<le> freq (heap ! c)" by blast
      with 2 c stop.prems(2) show ?thesis by simp
    next
      case 3
      with stop.prems(3) c have "freq (heap ! parent c) \<le> freq (heap ! c)" by blast
      with 3 show ?thesis by simp
    qed
  qed
  then show ?case
    using stop.hyps by (simp add: siftdown_loop_stop heap_from_def)
next
  case (step heap newitem s pos)
  let ?pp = "parent pos"
  let ?h = "heap[pos := heap ! ?pp]"
  have pos0: "0 < pos" using step.hyps(1) by simp
  have ppl: "?pp < pos" using pos0 by (rule parent_less)
  have lt: "freq newitem < freq (heap ! ?pp)"
    using step.hyps(2) by (simp add: node_lt_def parent_def)
  have dpp: "desc s ?pp" by (rule desc_parent [OF step.prems(1)]) (use step.hyps(1) in simp)
  then have spp: "s \<le> ?pp" by (rule desc_ge)
  have sib: "freq (heap ! ?pp) \<le> freq (heap ! c)"
    if "0 < c" "c < length heap" "parent c = ?pp" "c \<noteq> pos" for c
    using step.prems(3) that spp ppl by auto
  have A: "\<forall>c. 0 < c \<and> c < length ?h \<and> s \<le> parent c \<and> c \<noteq> ?pp \<and> parent c \<noteq> ?pp \<longrightarrow>
          freq (?h ! parent c) \<le> freq (?h ! c)"
  proof (intro allI impI)
    fix c assume c: "0 < c \<and> c < length ?h \<and> s \<le> parent c \<and> c \<noteq> ?pp \<and> parent c \<noteq> ?pp"
    then have cp: "c \<noteq> pos" by auto
    show "freq (?h ! parent c) \<le> freq (?h ! c)"
    proof (cases "parent c = pos")
      case True
      with step.prems(5) step.hyps(1) c have "freq (heap ! ?pp) \<le> freq (heap ! c)" by simp
      with True cp step.prems(2) show ?thesis by simp
    next
      case False
      with step.prems(3) c cp have "freq (heap ! parent c) \<le> freq (heap ! c)" by simp
      with False cp show ?thesis by simp
    qed
  qed
  have B: "\<forall>c. 0 < c \<and> c < length ?h \<and> parent c = ?pp \<longrightarrow> freq newitem \<le> freq (?h ! c)"
  proof (intro allI impI)
    fix c assume c: "0 < c \<and> c < length ?h \<and> parent c = ?pp"
    show "freq newitem \<le> freq (?h ! c)"
    proof (cases "c = pos")
      case True
      with lt step.prems(2) show ?thesis by simp
    next
      case False
      with sib [of c] c have "freq (heap ! ?pp) \<le> freq (heap ! c)" by simp
      with lt False show ?thesis by simp
    qed
  qed
  have C: "s < ?pp \<longrightarrow> (\<forall>c. 0 < c \<and> c < length ?h \<and> parent c = ?pp \<longrightarrow>
          freq (?h ! parent ?pp) \<le> freq (?h ! c))"
  proof (intro allI impI)
    fix c assume s: "s < ?pp" and c: "0 < c \<and> c < length ?h \<and> parent c = ?pp"
    have pp0: "0 < ?pp" using s by simp
    have gpl: "parent ?pp < ?pp" using pp0 by (rule parent_less)
    have "desc s (parent ?pp)" by (rule desc_parent [OF dpp]) (use s in simp)
    then have "s \<le> parent ?pp" by (rule desc_ge)
    with step.prems(3) pp0 ppl gpl step.prems(2)
    have g: "freq (heap ! parent ?pp) \<le> freq (heap ! ?pp)" by simp
    have e: "?h ! parent ?pp = heap ! parent ?pp" using gpl ppl by simp
    show "freq (?h ! parent ?pp) \<le> freq (?h ! c)"
    proof (cases "c = pos")
      case True
      with g e step.prems(2) show ?thesis by simp
    next
      case False
      with sib [of c] c have "freq (heap ! ?pp) \<le> freq (heap ! c)" by simp
      with g e False show ?thesis by simp
    qed
  qed
  have "heap_from s (siftdown_loop ?h newitem s ?pp)"
    unfolding parent_def
    apply (rule step.IH)
    using dpp A B C ppl step.prems(2) by (simp_all add: parent_def)
  then show ?case
    using step.hyps by (simp add: siftdown_loop_step parent_def)
qed

lemma minchild_parent: "parent (minchild heap pos) = pos"
  using minchild_cases [of heap pos] by auto

lemma minchild_min:
  assumes "0 < c" "c < length heap" "parent c = pos"
  shows "freq (heap ! minchild heap pos) \<le> freq (heap ! c)"
proof -
  from child_cases [OF assms(1)] assms(3) have "c = 2 * pos + 1 \<or> c = 2 * pos + 2" by simp
  then show ?thesis
    using assms(2) by (auto simp: minchild_def node_lt_def)
qed

lemma siftup_loop_heap:
  assumes "siftup_loop heap pos = (heap', pos')" "desc s pos" "pos < length heap"
    and "\<forall>c. 0 < c \<and> c < length heap \<and> s \<le> parent c \<and> parent c \<noteq> pos \<longrightarrow>
          freq (heap ! parent c) \<le> freq (heap ! c)"
    and "s < pos \<longrightarrow> (\<forall>c. 0 < c \<and> c < length heap \<and> parent c = pos \<longrightarrow>
          freq (heap ! parent pos) \<le> freq (heap ! c))"
  shows "heap_from s heap' \<and> desc s pos' \<and> \<not> 2 * pos' + 1 < length heap'"
  using assms
proof (induction heap pos rule: siftup_loop_induct)
  case (leaf heap pos)
  then have e: "heap' = heap" "pos' = pos" by (simp_all add: siftup_loop_leaf)
  have "freq (heap ! parent c) \<le> freq (heap ! c)"
    if c: "0 < c" "c < length heap" "s \<le> parent c" for c
  proof -
    have "parent c \<noteq> pos"
      using child_cases [OF c(1)] c(2) leaf.hyps by auto
    with leaf.prems(4) c show ?thesis by blast
  qed
  then show ?case
    using leaf.hyps leaf.prems(2) by (simp add: e heap_from_def)
next
  case (step heap pos)
  let ?m = "minchild heap pos"
  let ?h = "heap[pos := heap ! ?m]"
  have ml: "?m < length heap" using step.hyps by (rule minchild_less)
  have mp: "parent ?m = pos" by (rule minchild_parent)
  have mg: "pos < ?m" by (rule minchild_gt)
  have sp: "s \<le> pos" using step.prems(2) by (rule desc_ge)
  have dm: "desc s ?m"
  proof -
    have "desc s (2 * pos + 1)" "desc s (2 * pos + 2)"
      using step.prems(2) by (rule desc_left, rule desc_right)
    with minchild_cases [of heap pos] show ?thesis by metis
  qed
  have sl: "siftup_loop ?h ?m = (heap', pos')"
    using step.prems(1) step.hyps by (simp add: siftup_loop_step)
  have A: "\<forall>c. 0 < c \<and> c < length ?h \<and> s \<le> parent c \<and> parent c \<noteq> ?m \<longrightarrow>
          freq (?h ! parent c) \<le> freq (?h ! c)"
  proof (intro allI impI)
    fix c assume c: "0 < c \<and> c < length ?h \<and> s \<le> parent c \<and> parent c \<noteq> ?m"
    then have pl: "parent c < c" by (simp add: parent_less)
    consider "c = pos" | "c \<noteq> pos" "parent c = pos" | "c \<noteq> pos" "parent c \<noteq> pos" by blast
    then show "freq (?h ! parent c) \<le> freq (?h ! c)"
    proof cases
      case 1
      with c pl have "s < pos" by simp
      with step.prems(5) ml mp mg have "freq (heap ! parent pos) \<le> freq (heap ! ?m)" by simp
      with 1 pl step.prems(3) show ?thesis by simp
    next
      case 2
      with c have "freq (heap ! ?m) \<le> freq (heap ! c)" by (intro minchild_min) simp_all
      with 2 step.prems(3) show ?thesis by simp
    next
      case 3
      with step.prems(4) c have "freq (heap ! parent c) \<le> freq (heap ! c)" by simp
      with 3 show ?thesis by simp
    qed
  qed
  have G: "s < ?m \<longrightarrow> (\<forall>c. 0 < c \<and> c < length ?h \<and> parent c = ?m \<longrightarrow>
          freq (?h ! parent ?m) \<le> freq (?h ! c))"
  proof (intro allI impI)
    fix c assume c: "0 < c \<and> c < length ?h \<and> parent c = ?m"
    then have "0 < c" by simp
    then have "parent c < c" by (rule parent_less)
    with c mg have cp: "c \<noteq> pos" by simp
    have "s \<le> parent c" using c sp mg by simp
    moreover have "parent c \<noteq> pos" using c mg by simp
    moreover have "0 < c" "c < length heap" using c by simp_all
    ultimately have "freq (heap ! parent c) \<le> freq (heap ! c)"
      using step.prems(4) by blast
    then have "freq (heap ! ?m) \<le> freq (heap ! c)" using c by simp
    with cp step.prems(3) show "freq (?h ! parent ?m) \<le> freq (?h ! c)" by (simp add: mp)
  qed
  show ?case
    by (rule step.IH [OF sl dm]) (use ml A G in simp_all)
qed

lemma siftup_heap:
  assumes "heap_from (Suc s) heap" "s < length heap"
  shows "heap_from s (siftup heap s)"
proof -
  obtain heap' pos' where sl: "siftup_loop heap s = (heap', pos')"
    by (cases "siftup_loop heap s") blast
  have len: "length heap' = length heap" using sl by (rule length_siftup_loop)
  have p': "pos' < length heap" using mset_siftup_loop [OF sl assms(2)] by simp
  have "heap_from s heap' \<and> desc s pos' \<and> \<not> 2 * pos' + 1 < length heap'"
  proof (rule siftup_loop_heap [OF sl desc_self assms(2)])
    show "\<forall>c. 0 < c \<and> c < length heap \<and> s \<le> parent c \<and> parent c \<noteq> s \<longrightarrow>
          freq (heap ! parent c) \<le> freq (heap ! c)"
      using assms(1) by (auto simp: heap_from_def)
    show "s < s \<longrightarrow> (\<forall>c. 0 < c \<and> c < length heap \<and> parent c = s \<longrightarrow>
          freq (heap ! parent s) \<le> freq (heap ! c))" by simp
  qed
  then have hf: "heap_from s heap'" and d: "desc s pos'" and lf: "\<not> 2 * pos' + 1 < length heap'"
    by simp_all
  let ?H = "heap'[pos' := heap ! s]"
  have nochild: "parent c \<noteq> pos'" if "0 < c" "c < length heap'" for c
    using child_cases [OF that(1)] that(2) lf by auto
  have "heap_from s (siftdown_loop ?H (heap ! s) s pos')"
  proof (rule siftdown_loop_heap [OF d])
    show "pos' < length ?H" using p' len by simp
    show "\<forall>c. 0 < c \<and> c < length ?H \<and> s \<le> parent c \<and> c \<noteq> pos' \<and> parent c \<noteq> pos' \<longrightarrow>
          freq (?H ! parent c) \<le> freq (?H ! c)"
      using hf by (auto simp: heap_from_def)
    show "\<forall>c. 0 < c \<and> c < length ?H \<and> parent c = pos' \<longrightarrow> freq (heap ! s) \<le> freq (?H ! c)"
      using nochild by auto
    show "s < pos' \<longrightarrow> (\<forall>c. 0 < c \<and> c < length ?H \<and> parent c = pos' \<longrightarrow>
          freq (?H ! parent pos') \<le> freq (?H ! c))"
      using nochild by auto
  qed
  moreover have "siftup heap s = siftdown_loop ?H (heap ! s) s pos'"
    using p' len by (simp add: siftup_def sl siftdown_def Let_def)
  ultimately show ?thesis by simp
qed

lemma heapify_fold_heap:
  "m \<le> length x div 2 \<Longrightarrow> heap_from m x \<Longrightarrow>
   heap_from 0 (fold (\<lambda>i h. siftup h i) (rev [0..<m]) x)"
proof (induction m arbitrary: x)
  case 0
  then show ?case by simp
next
  case (Suc m)
  have "heap_from m (siftup x m)"
    using Suc.prems by (intro siftup_heap) auto
  moreover have "m \<le> length (siftup x m) div 2" using Suc.prems(1) by simp
  ultimately have "heap_from 0 (fold (\<lambda>i h. siftup h i) (rev [0..<m]) (siftup x m))"
    by (intro Suc.IH)
  then show ?case by simp
qed

lemma heapify_heap: "heap_from 0 (heapify x)"
proof -
  have "heap_from (length x div 2) x"
  proof -
    have False if c: "0 < c" "c < length x" "length x div 2 \<le> parent c" for c
      using child_cases [OF c(1)] c(2,3) by auto
    then show ?thesis by (auto simp: heap_from_def)
  qed
  then show ?thesis
    unfolding heapify_def by (intro heapify_fold_heap) simp_all
qed

lemma heappush_heap:
  assumes "heap_from 0 heap"
  shows "heap_from 0 (heappush heap item)"
proof -
  let ?H = "heap @ [item]"
  let ?n = "length heap"
  have nochild: "parent c \<noteq> ?n" if "0 < c" "c < length ?H" for c
    using child_cases [OF that(1)] that(2) by auto
  have "heap_from 0 (siftdown_loop ?H item 0 ?n)"
  proof (rule siftdown_loop_heap [OF desc_0])
    show "?n < length ?H" by simp
    show "\<forall>c. 0 < c \<and> c < length ?H \<and> 0 \<le> parent c \<and> c \<noteq> ?n \<and> parent c \<noteq> ?n \<longrightarrow>
          freq (?H ! parent c) \<le> freq (?H ! c)"
    proof (intro allI impI)
      fix c assume c: "0 < c \<and> c < length ?H \<and> 0 \<le> parent c \<and> c \<noteq> ?n \<and> parent c \<noteq> ?n"
      then have cl: "c < ?n" by simp
      moreover have "parent c < c" using c by (simp add: parent_less)
      ultimately have "?H ! c = heap ! c" "?H ! parent c = heap ! parent c"
        by (simp_all add: nth_append)
      with assms c cl show "freq (?H ! parent c) \<le> freq (?H ! c)"
        by (simp add: heap_from_def)
    qed
    show "\<forall>c. 0 < c \<and> c < length ?H \<and> parent c = ?n \<longrightarrow> freq item \<le> freq (?H ! c)"
      using nochild by auto
    show "0 < ?n \<longrightarrow> (\<forall>c. 0 < c \<and> c < length ?H \<and> parent c = ?n \<longrightarrow>
          freq (?H ! parent ?n) \<le> freq (?H ! c))"
      using nochild by auto
  qed
  then show ?thesis by (simp add: heappush_def siftdown_def)
qed

lemma heap_root_min:
  assumes "heap_from 0 h" "i < length h"
  shows "freq (h ! 0) \<le> freq (h ! i)"
  using assms(2)
proof (induction i rule: less_induct)
  case (less i)
  show ?case
  proof (cases "i = 0")
    case True
    then show ?thesis by simp
  next
    case False
    then have pl: "parent i < i" by (simp add: parent_less)
    with less.prems have "freq (h ! 0) \<le> freq (h ! parent i)" by (intro less.IH) simp_all
    moreover have "freq (h ! parent i) \<le> freq (h ! i)"
      using assms(1) False less.prems by (simp add: heap_from_def)
    ultimately show ?thesis by simp
  qed
qed

lemma heappop_heap:
  assumes "heap_from 0 heap" "heappop heap = Inr (x, heap')"
  shows "heap_from 0 heap' \<and> (\<forall>y\<in>set heap. freq x \<le> freq y)"
proof (cases heap rule: rev_cases)
  case Nil
  with assms(2) show ?thesis by (simp add: heappop_def)
next
  case (snoc ys y)
  show ?thesis
  proof (cases ys)
    case Nil
    with assms(2) snoc show ?thesis by (simp add: heappop_def heap_from_def)
  next
    case (Cons z zs)
    with assms(2) snoc have x: "x = z" and h': "heap' = siftup (y # zs) 0"
      by (simp_all add: heappop_def)
    have "heap_from (Suc 0) (y # zs)"
    proof -
      have "freq ((y # zs) ! parent c) \<le> freq ((y # zs) ! c)"
        if c: "0 < c" "c < length (y # zs)" "Suc 0 \<le> parent c" for c
      proof -
        have pl: "parent c < c" using c(1) by (rule parent_less)
        have cl: "c < length heap" using c(2) by (simp add: snoc Cons)
        have "0 \<le> parent c" by simp
        with assms(1) c(1) cl have "freq (heap ! parent c) \<le> freq (heap ! c)"
          unfolding heap_from_def by blast
        moreover have c1: "c - 1 < length zs" using c(1,2) by simp
        then have "heap ! c = (y # zs) ! c"
          using c(1) by (simp add: snoc Cons nth_Cons' nth_append)
        moreover have "parent c - 1 < length zs" using c1 pl by simp
        then have "heap ! parent c = (y # zs) ! parent c"
          using c(3) by (simp add: snoc Cons nth_Cons' nth_append)
        ultimately show ?thesis by simp
      qed
      then show ?thesis by (simp add: heap_from_def)
    qed
    then have "heap_from 0 heap'" unfolding h' by (rule siftup_heap) simp
    moreover have "\<forall>y\<in>set heap. freq x \<le> freq y"
    proof
      fix t assume "t \<in> set heap"
      then obtain i where "i < length heap" "heap ! i = t" by (auto simp: in_set_conv_nth)
      with heap_root_min [OF assms(1), of i] show "freq x \<le> freq t"
        by (simp add: x snoc Cons)
    qed
    ultimately show ?thesis by simp
  qed
qed

section \<open>The cost of the tree that is built\<close>

text \<open>
  The trees the construction makes: leaves, and internal nodes whose frequency is the sum
  of the frequencies of their two children. \<open>wsum\<close> is the sum of the leaf frequencies
  of a tree and \<open>lcost t p\<close> the sum over its leaves of frequency times path length, the
  paths starting with \<open>p\<close>.
\<close>

inductive built :: "HuffmanNode \<Rightarrow> bool" where
  built_leaf: "built (HuffmanNode (Some b) f None None)"
| built_node: "built l \<Longrightarrow> built r \<Longrightarrow> built (HuffmanNode None (freq l + freq r) (Some l) (Some r))"

definition wsum :: "HuffmanNode \<Rightarrow> nat" where
  "wsum t = sum_list (map snd (items t))"

definition lcost :: "HuffmanNode \<Rightarrow> string \<Rightarrow> nat" where
  "lcost t p = (\<Sum>(b, f, c)\<leftarrow>leaves t p. f * length c)"

lemma wsum_leaf [simp]: "wsum (HuffmanNode (Some b) f l r) = f"
  by (simp add: wsum_def)

lemma wsum_node [simp]: "wsum (HuffmanNode None f (Some l) (Some r)) = wsum l + wsum r"
  by (simp add: wsum_def)

lemma lcost_leaf [simp]: "lcost (HuffmanNode (Some b) f l r) p = f * length p"
  by (simp add: lcost_def)

lemma lcost_node [simp]:
  "lcost (HuffmanNode None f (Some l) (Some r)) p = lcost l (p @ ''0'') + lcost r (p @ ''1'')"
  by (simp add: lcost_def)

lemma built_freq: "built t \<Longrightarrow> freq t = wsum t"
  by (induction rule: built.induct) simp_all

lemma lcost_shift: "built t \<Longrightarrow> lcost t p = lcost t [] + wsum t * length p"
proof (induction arbitrary: p rule: built.induct)
  case (built_leaf b f)
  show ?case by simp
next
  case (built_node l r)
  have "lcost l (p @ ''0'') = lcost l [] + wsum l * Suc (length p)"
    using built_node.IH(1) [of "p @ ''0''"] by simp
  moreover have "lcost r (p @ ''1'') = lcost r [] + wsum r * Suc (length p)"
    using built_node.IH(2) [of "p @ ''1''"] by simp
  moreover have "lcost l ''0'' = lcost l [] + wsum l"
    using built_node.IH(1) [of "''0''"] by simp
  moreover have "lcost r ''1'' = lcost r [] + wsum r"
    using built_node.IH(2) [of "''1''"] by simp
  ultimately show ?case by (simp add: algebra_simps)
qed

lemma lcost_merge:
  assumes "built l" "built r"
  shows "lcost (HuffmanNode None f (Some l) (Some r)) [] = lcost l [] + lcost r [] + freq l + freq r"
  using lcost_shift [OF assms(1), of "''0''"] lcost_shift [OF assms(2), of "''1''"]
    built_freq [OF assms(1)] built_freq [OF assms(2)]
  by simp

text \<open>Proof device: the sum of \<open>lcost\<close> over the trees in the heap.\<close>

definition forest_cost :: "HuffmanNode list \<Rightarrow> nat" where
  "forest_cost heap = (\<Sum>t\<in>#mset heap. lcost t [])"

lemma build_loop_opt:
  assumes "heap \<noteq> []" "heap_from 0 heap" "\<forall>t\<in>set heap. built t"
  shows "\<exists>root. build_loop heap = Inr [root] \<and> built root \<and>
    (\<forall>P. pfc (image_mset snd P) \<and> image_mset fst P = image_mset freq (mset heap) \<longrightarrow>
       lcost root [] \<le> forest_cost heap + cost P)"
  using assms
proof (induction "length heap" arbitrary: heap rule: less_induct)
  case less
  show ?case
  proof (cases "1 < length heap")
    case False
    with less.prems(1) obtain root where h: "heap = [root]"
      by (cases heap) auto
    then show ?thesis
      using less.prems(3) by (simp add: build_loop_stop forest_cost_def)
  next
    case True
    from build_loop_step [OF True] obtain l h1 r h2 where
      p1: "heappop heap = Inr (l, h1)" and p2: "heappop h1 = Inr (r, h2)" and
      bl: "build_loop heap =
        build_loop (heappush h2 (HuffmanNode None (freq l + freq r) (Some l) (Some r)))"
      by blast
    let ?m = "HuffmanNode None (freq l + freq r) (Some l) (Some r)"
    let ?h = "heappush h2 ?m"
    have len: "length heap = Suc (length h1)" "length h1 = Suc (length h2)"
      using p1 p2 by (auto dest: length_heappop)
    have ms1: "mset heap = add_mset l (mset h1)" by (rule mset_heappop [OF p1])
    have ms2: "mset h1 = add_mset r (mset h2)" by (rule mset_heappop [OF p2])
    have ms: "mset heap = add_mset l (add_mset r (mset h2))" using ms1 ms2 by simp
    from heappop_heap [OF less.prems(2) p1]
    have hf1: "heap_from 0 h1" and min1: "\<forall>y\<in>set heap. freq l \<le> freq y" by simp_all
    from heappop_heap [OF hf1 p2]
    have hf2: "heap_from 0 h2" and min2: "\<forall>y\<in>set h1. freq r \<le> freq y" by simp_all
    have sets: "set heap = insert l (insert r (set h2))" "set h1 = insert r (set h2)"
      using ms ms2 by (metis set_mset_add_mset_insert set_mset_mset)+
    have bl': "built l" "built r" "\<forall>t\<in>set h2. built t"
      using less.prems(3) sets by auto
    have bm: "built ?m" using bl'(1,2) by (rule built_node)
    have "length ?h < length heap" "?h \<noteq> []"
      using len by (auto simp: length_0_conv [symmetric] simp del: length_0_conv)
    moreover have "heap_from 0 ?h" using hf2 by (rule heappush_heap)
    moreover have "\<forall>t\<in>set ?h. built t"
    proof -
      have "set ?h = insert ?m (set h2)"
        by (metis mset_heappush set_mset_add_mset_insert set_mset_mset)
      with bm bl'(3) show ?thesis by simp
    qed
    ultimately obtain root where
      r: "build_loop ?h = Inr [root]" "built root" and
      opt: "\<And>P'. pfc (image_mset snd P') \<Longrightarrow> image_mset fst P' = image_mset freq (mset ?h) \<Longrightarrow>
        lcost root [] \<le> forest_cost ?h + cost P'"
      using less.hyps [of ?h] by blast
    have fc: "forest_cost ?h = forest_cost heap + freq l + freq r"
      by (simp add: forest_cost_def ms lcost_merge [OF bl'(1,2)] del: lcost_node)
    have "lcost root [] \<le> forest_cost heap + cost P"
      if v: "pfc (image_mset snd P)" and w: "image_mset fst P = image_mset freq (mset heap)" for P
    proof -
      have "size P = length heap"
        using w by (metis size_image_mset size_mset)
      with True have sz: "2 \<le> size P" by simp
      have "\<exists>P'. pfc (image_mset snd P') \<and>
        image_mset fst P' = add_mset (freq l + freq r) (image_mset fst P - {#freq l#} - {#freq r#}) \<and>
        cost P' + freq l + freq r \<le> cost P"
      proof (rule exchange [OF v sz])
        show "freq l \<in># image_mset fst P" by (simp add: w ms)
        show "\<forall>w\<in>#image_mset fst P. freq l \<le> w" using min1 by (auto simp: w)
        show "freq r \<in># image_mset fst P - {#freq l#}" by (simp add: w ms)
        show "\<forall>w\<in>#image_mset fst P - {#freq l#}. freq r \<le> w"
          using min2 by (auto simp: w ms1)
      qed
      then obtain P' where v': "pfc (image_mset snd P')"
        and w': "image_mset fst P' =
          add_mset (freq l + freq r) (image_mset fst P - {#freq l#} - {#freq r#})"
        and c': "cost P' + freq l + freq r \<le> cost P" by blast
      have "image_mset fst P' = image_mset freq (mset ?h)"
        by (simp add: w' w ms)
      from opt [OF v' this] have "lcost root [] \<le> forest_cost ?h + cost P'" .
      with fc c' show ?thesis by simp
    qed
    with r bl show ?thesis by simp
  qed
qed

lemma sum_over_keys:
  fixes g :: "'a \<Rightarrow> nat"
  assumes "distinct (map k xs)" "set (map k xs) = A" "\<forall>x\<in>set xs. g x = h (k x)"
  shows "sum_list (map g xs) = sum h A"
proof -
  have "sum_list (map h (map k xs)) = sum h (set (map k xs))"
    using assms(1) by (rule sum_list_distinct_conv_sum_set)
  then have "sum h A = sum_list (map h (map k xs))"
    using assms(2) by simp
  also have "\<dots> = sum_list (map g xs)"
    using assms(3) by (simp add: comp_def cong: map_cong)
  finally show ?thesis by simp
qed

lemma build_tree_opt:
  assumes "data \<noteq> []"
  shows "\<exists>root. build_huffman_tree_from_bytes data = Inr (Some root) \<and> built root \<and>
    mset (items root) = mset (Counter data) \<and>
    (\<forall>P. pfc (image_mset snd P) \<and> image_mset fst P = image_mset snd (mset (Counter data)) \<longrightarrow>
       lcost root [] \<le> cost P)"
proof -
  let ?ini = "map (\<lambda>(b, f). HuffmanNode (Some b) f None None) (Counter data)"
  let ?h = "heapify ?ini"
  have "length ?h = length (Counter data)" by simp
  moreover have "Counter data \<noteq> []" using assms by (simp add: Counter_Nil_iff)
  ultimately have ne: "?h \<noteq> []" by (metis length_0_conv)
  have st: "set ?h = set ?ini" by (metis mset_heapify set_mset_mset)
  have bt: "\<forall>t\<in>set ?h. built t" unfolding st by (auto intro: built_leaf)
  have fc: "forest_cost ?h = 0"
  proof -
    have "forest_cost ?h = forest_cost ?ini" by (simp add: forest_cost_def)
    also have "\<dots> = 0" by (simp add: forest_cost_def image_mset.compositionality comp_def
        case_prod_unfold)
    finally show ?thesis .
  qed
  have fw: "image_mset freq (mset ?h) = image_mset snd (mset (Counter data))"
    by (simp add: image_mset.compositionality comp_def case_prod_unfold)
  from build_loop_opt [OF ne heapify_heap bt] obtain root where
    r: "build_loop ?h = Inr [root]" "built root" and
    opt: "\<forall>P. pfc (image_mset snd P) \<and> image_mset fst P = image_mset freq (mset ?h) \<longrightarrow>
       lcost root [] \<le> forest_cost ?h + cost P" by blast
  from build_loop_items [OF ne] r(1) have "mset (items root) = forest_items ?h" by simp
  also have "\<dots> = forest_items ?ini" by (rule forest_items_cong) simp
  also have "\<dots> = mset (Counter data)" by (rule forest_items_leaves)
  finally have it: "mset (items root) = mset (Counter data)" .
  have "build_huffman_tree_from_bytes data = Inr (Some root)"
    using ne r(1) by (simp add: build_huffman_tree_from_bytes_def Let_def)
  with r(2) it opt fc fw show ?thesis by simp
qed

text \<open>
  The quantity of the claim: \<open>weighted_cost S C\<close> is the sum over the distinct symbols of
  \<open>S\<close> of frequency times code length, for a code \<open>C\<close> given as a function. A code for
  \<open>S\<close> is a prefix-free binary code when every symbol of \<open>S\<close> has a non-empty code over
  0 and 1 (the code tables of the data model hold non-empty bit sequences) and the code
  of no symbol is a prefix of the code of another. \<open>table_code\<close> reads a code table as
  such a function.
\<close>

definition weighted_cost :: "byte list \<Rightarrow> (byte \<Rightarrow> string) \<Rightarrow> nat" where
  "weighted_cost S C = (\<Sum>s\<in>set S. count_list S s * length (C s))"

definition prefix_free_code :: "byte list \<Rightarrow> (byte \<Rightarrow> string) \<Rightarrow> bool" where
  "prefix_free_code S C \<longleftrightarrow>
     (\<forall>s\<in>set S. C s \<noteq> [] \<and> bin (C s)) \<and>
     (\<forall>s\<in>set S. \<forall>t\<in>set S. s \<noteq> t \<longrightarrow> \<not> prefix (C s) (C t))"

definition table_code :: "(byte, string) dict \<Rightarrow> byte \<Rightarrow> string" where
  "table_code codes s = the (dict_get codes s)"

lemma Counter_entry:
  assumes "(s, f) \<in> set (Counter S)"
  shows "s \<in> set S \<and> f = count_list S s"
proof -
  from assms have k: "s \<in> set S" using keys_Counter [of S] by force
  have "dict_get (Counter S) s = Some f"
    unfolding dict_get_def using distinct_Counter assms by (rule map_of_is_SomeI)
  with get_Counter [OF k] k show ?thesis by simp
qed

lemma cost_of_code:
  "cost (image_mset (\<lambda>(s, f). (f, C s)) (mset (Counter S))) = weighted_cost S C"
proof -
  have "cost (image_mset (\<lambda>(s, f). (f, C s)) (mset (Counter S))) =
      sum_mset (mset (map (\<lambda>(s, f). f * length (C s)) (Counter S)))"
    by (simp add: cost_def image_mset.compositionality comp_def case_prod_unfold)
  also have "\<dots> = sum_list (map (\<lambda>(s, f). f * length (C s)) (Counter S))"
    by (rule sum_mset_sum_list)
  also have "\<dots> = (\<Sum>s\<in>set S. count_list S s * length (C s))"
  proof (rule sum_over_keys [where k = fst])
    show "distinct (map fst (Counter S))" by (rule distinct_Counter)
    show "set (map fst (Counter S)) = set S" using keys_Counter [of S] by simp
    show "\<forall>x\<in>set (Counter S). (case x of (s, f) \<Rightarrow> f * length (C s)) =
        count_list S (fst x) * length (C (fst x))"
      by (auto dest: Counter_entry)
  qed
  finally show ?thesis by (simp add: weighted_cost_def)
qed

lemma pfc_of_code:
  assumes "prefix_free_code S C"
  shows "pfc (image_mset snd (image_mset (\<lambda>(s, f). (f, C s)) (mset (Counter S))))"
proof -
  let ?ks = "map fst (Counter S)"
  have e: "image_mset snd (image_mset (\<lambda>(s, f). (f, C s)) (mset (Counter S))) = mset (map C ?ks)"
    by (simp add: image_mset.compositionality comp_def case_prod_unfold)
  have ks: "set ?ks = set S" using keys_Counter [of S] by simp
  have inj: "inj_on C (set S)"
  proof (rule inj_onI)
    fix s t assume "s \<in> set S" "t \<in> set S" "C s = C t"
    with assms show "s = t" unfolding prefix_free_code_def by (metis prefix_order.refl)
  qed
  have "inj_on C (set ?ks)" using inj ks by simp
  with distinct_Counter [of S] have d: "distinct (map C ?ks)"
    by (subst distinct_map) blast
  have "\<forall>c\<in>#mset (map C ?ks). bin c"
    using assms ks by (auto simp: prefix_free_code_def)
  moreover have "\<forall>c. count (mset (map C ?ks)) c \<le> 1"
    using d by (simp add: distinct_count_atmost_1)
  moreover have "\<forall>x\<in>#mset (map C ?ks). \<forall>y\<in>#mset (map C ?ks). prefix x y \<longrightarrow> x = y"
  proof (intro ballI impI)
    fix x y assume "x \<in># mset (map C ?ks)" "y \<in># mset (map C ?ks)" and p: "prefix x y"
    then obtain s t where st: "s \<in> set S" "t \<in> set S" "x = C s" "y = C t"
      using ks by auto
    with assms p have "s = t" unfolding prefix_free_code_def by blast
    with st show "x = y" by simp
  qed
  ultimately show ?thesis unfolding e pfc_def by blast
qed

lemma code_cost_lcost:
  assumes m: "mset (items root) = mset (Counter S)"
  shows "weighted_cost S (table_code (paths root [])) = lcost root []"
proof -
  let ?L = "leaves root []"
  have kL: "map fst ?L = map fst (items root)"
    by (simp add: items_def comp_def case_prod_unfold)
  from m have "mset (map fst (items root)) = mset (map fst (Counter S))"
    by (metis mset_map)
  then have dk: "distinct (map fst (items root))"
    and sk: "set (map fst (items root)) = set S"
    using distinct_Counter [of S] keys_Counter [of S]
    by (metis mset_eq_imp_distinct_iff, metis mset_eq_setD set_map)
  have dT: "distinct (map fst (paths root []))" using dk by (simp add: paths_keys)
  have "sum_list (map (\<lambda>(b, f, c). f * length c) ?L) =
      (\<Sum>s\<in>set S. count_list S s * length (table_code (paths root []) s))"
  proof (rule sum_over_keys [where k = fst])
    show "distinct (map fst ?L)" using dk kL by simp
    show "set (map fst ?L) = set S" using sk kL by simp
    show "\<forall>x\<in>set ?L. (case x of (b, f, c) \<Rightarrow> f * length c) =
        count_list S (fst x) * length (table_code (paths root []) (fst x))"
    proof
      fix x assume x: "x \<in> set ?L"
      obtain b f c where xe: "x = (b, f, c)" by (cases x)
      from x xe have "(b, f) \<in> set (items root)" by (force simp: items_def)
      then have "(b, f) \<in> set (Counter S)" using m by (metis mset_eq_setD)
      then have f: "f = count_list S b" by (auto dest: Counter_entry)
      from x xe have "(b, c) \<in> set (paths root [])" by (force simp: paths_def)
      with dT have "dict_get (paths root []) b = Some c"
        unfolding dict_get_def by (rule map_of_is_SomeI)
      then show "(case x of (b, f, c) \<Rightarrow> f * length c) =
          count_list S (fst x) * length (table_code (paths root []) (fst x))"
        by (simp add: xe f table_code_def)
    qed
  qed
  then show ?thesis by (simp add: weighted_cost_def lcost_def)
qed

lemma paths_bin: "bin p \<Longrightarrow> (b, c) \<in> set (paths t p) \<Longrightarrow> bin c"
proof (induction t p arbitrary: b c rule: leaves.induct)
  case (1 bv f l r pfx)
  show ?case
  proof (cases bv)
    case (Some b')
    with "1.prems" show ?thesis by (simp add: paths_def)
  next
    case None
    from "1.prems"(2) None have
      "(\<exists>t. l = Some t \<and> (b, c) \<in> set (paths t (pfx @ ''0''))) \<or>
       (\<exists>t. r = Some t \<and> (b, c) \<in> set (paths t (pfx @ ''1'')))"
      by (cases l; cases r) (auto simp: paths_node_None)
    then show ?thesis
    proof (elim disjE exE conjE)
      fix t assume t: "l = Some t" "(b, c) \<in> set (paths t (pfx @ ''0''))"
      have "bin (pfx @ ''0'')" using "1.prems"(1) by (simp add: bin_def)
      with t show ?thesis using "1.IH"(1) [OF None t(1)] by blast
    next
      fix t assume t: "r = Some t" "(b, c) \<in> set (paths t (pfx @ ''1''))"
      have "bin (pfx @ ''1'')" using "1.prems"(1) by (simp add: bin_def)
      with t show ?thesis using "1.IH"(2) [OF None t(1)] by blast
    qed
  qed
qed

section \<open>Optimality of the code table\<close>

lemma optimal_nonempty:
  assumes ne: "S \<noteq> []" and pc: "prefix_free_code S C"
  shows "\<exists>root. build_huffman_tree_from_bytes S = Inr (Some root) \<and>
    prefix_free_code S (table_code (build_codes_from_tree (Some root))) \<and>
    weighted_cost S (table_code (build_codes_from_tree (Some root))) \<le> weighted_cost S C"
proof -
  from build_tree_opt [OF ne] obtain root where
    r: "build_huffman_tree_from_bytes S = Inr (Some root)" and b: "built root"
    and m: "mset (items root) = mset (Counter S)"
    and opt: "\<forall>P. pfc (image_mset snd P) \<and> image_mset fst P = image_mset snd (mset (Counter S)) \<longrightarrow>
       lcost root [] \<le> cost P" by blast
  let ?T = "build_codes_from_tree (Some root)"
  from m have "mset (map fst (items root)) = mset (map fst (Counter S))"
    by (metis mset_map)
  then have dk: "distinct (map fst (items root))"
    and sk: "set (map fst (items root)) = set S"
    using distinct_Counter [of S] keys_Counter [of S]
    by (metis mset_eq_imp_distinct_iff, metis mset_eq_setD set_map)
  from b show ?thesis
  proof (cases rule: built.cases)
    case (built_leaf a f)
    then have T: "?T = [(a, ''0'')]" by (simp add: codes_of_leaf)
    have S: "set S = {a}" using sk built_leaf by simp
    have tc: "table_code ?T a = ''0''" by (simp add: T table_code_def dict_get_def)
    have "prefix_free_code S (table_code ?T)"
      by (simp add: prefix_free_code_def S tc bin_def)
    moreover have "C a \<noteq> []" using pc S by (simp add: prefix_free_code_def)
    then have "1 \<le> length (C a)" by (cases "C a") simp_all
    then have "weighted_cost S (table_code ?T) \<le> weighted_cost S C"
      by (simp add: weighted_cost_def S tc)
    ultimately show ?thesis using r by blast
  next
    case (built_node l rr)
    then have T: "?T = paths root []" using dk by (simp add: codes_of_inner)
    let ?P = "image_mset (\<lambda>(s, f). (f, C s)) (mset (Counter S))"
    have "pfc (image_mset snd ?P)" using pc by (rule pfc_of_code)
    moreover have "image_mset fst ?P = image_mset snd (mset (Counter S))"
      by (simp add: image_mset.compositionality comp_def case_prod_unfold)
    ultimately have "lcost root [] \<le> cost ?P" using opt by blast
    then have le: "weighted_cost S (table_code ?T) \<le> weighted_cost S C"
      by (simp add: T code_cost_lcost [OF m] cost_of_code)
    have dT: "distinct (map fst ?T)" using dk by (simp add: T paths_keys)
    have kT: "fst ` set ?T = set S" using sk paths_keys [of root "[]"] T by (metis set_map)
    have pT: "pf (map snd ?T)" by (simp add: T paths_pf)
    have entry: "(s, table_code ?T s) \<in> set ?T" if "s \<in> set S" for s
    proof -
      from that kT obtain c where "(s, c) \<in> set ?T" by force
      moreover from this dT have "dict_get ?T s = Some c"
        unfolding dict_get_def by (intro map_of_is_SomeI)
      ultimately show ?thesis by (simp add: table_code_def)
    qed
    have "table_code ?T s \<noteq> [] \<and> bin (table_code ?T s)" if "s \<in> set S" for s
    proof -
      from entry [OF that] have e: "(s, table_code ?T s) \<in> set (paths root [])" by (simp only: T)
      have "bin []" by (simp add: bin_def)
      from this e have "bin (table_code ?T s)" by (rule paths_bin)
      moreover have "table_code ?T s \<noteq> []"
        using e paths_inner_nonempty built_node(1) by blast
      ultimately show ?thesis by simp
    qed
    moreover have "\<not> prefix (table_code ?T s) (table_code ?T t)"
      if "s \<in> set S" "t \<in> set S" "s \<noteq> t" for s t
    proof
      assume p: "prefix (table_code ?T s) (table_code ?T t)"
      have d: "distinct (map snd ?T)" using pT by (simp add: pf_def)
      from d entry [OF that(1)] entry [OF that(2)] that(3)
      have "table_code ?T s \<noteq> table_code ?T t" by (rule table_entries)
      moreover have "table_code ?T s \<in> snd ` set ?T" "table_code ?T t \<in> snd ` set ?T"
        using entry [OF that(1)] entry [OF that(2)] by force+
      with pT have "table_code ?T s = table_code ?T t" using p by (rule pf_rule)
      ultimately show False by simp
    qed
    ultimately have "prefix_free_code S (table_code ?T)"
      by (simp add: prefix_free_code_def)
    with r le show ?thesis by blast
  qed
qed

text \<open>
  Claim C3: for every non-empty byte sequence, the code table that
  \<open>build_codes_from_tree\<close> reads off the tree of \<open>build_huffman_tree_from_bytes\<close> is a
  prefix-free binary code for the sequence, and its weighted cost is at most that of any
  prefix-free binary code for the same frequencies; for the input \<open>aaabbc\<close> the weighted
  cost is 9.
\<close>

theorem huffman_optimal:
  "(S \<noteq> [] \<and> prefix_free_code S C \<longrightarrow>
     (\<exists>root. build_huffman_tree_from_bytes S = Inr (Some root) \<and>
        prefix_free_code S (table_code (build_codes_from_tree (Some root))) \<and>
        weighted_cost S (table_code (build_codes_from_tree (Some root))) \<le> weighted_cost S C)) \<and>
   (\<exists>root. build_huffman_tree_from_bytes [97, 97, 97, 98, 98, 99] = Inr (Some root) \<and>
      weighted_cost [97, 97, 97, 98, 98, 99] (table_code (build_codes_from_tree (Some root))) = 9)"
proof (intro conjI impI)
  assume "S \<noteq> [] \<and> prefix_free_code S C"
  then show "\<exists>root. build_huffman_tree_from_bytes S = Inr (Some root) \<and>
        prefix_free_code S (table_code (build_codes_from_tree (Some root))) \<and>
        weighted_cost S (table_code (build_codes_from_tree (Some root))) \<le> weighted_cost S C"
    using optimal_nonempty by blast
next
  let ?root = "HuffmanNode None 6 (Some (HuffmanNode (Some 97) 3 None None))
    (Some (HuffmanNode None 3 (Some (HuffmanNode (Some 99) 1 None None))
       (Some (HuffmanNode (Some 98) 2 None None))))"
  have t: "build_huffman_tree_from_bytes [97, 97, 97, 98, 98, 99] = Inr (Some ?root)"
    by code_simp
  have c: "build_codes_from_tree (Some ?root) = [(97, ''0''), (99, ''10''), (98, ''11'')]"
    by code_simp
  have "weighted_cost [97, 97, 97, 98, 98, 99]
      (table_code [(97, ''0''), (99, ''10''), (98, ''11'')]) = 9"
    by (simp add: weighted_cost_def table_code_def dict_get_def)
  with t c show "\<exists>root. build_huffman_tree_from_bytes [97, 97, 97, 98, 98, 99] = Inr (Some root) \<and>
      weighted_cost [97, 97, 97, 98, 98, 99] (table_code (build_codes_from_tree (Some root))) = 9"
    by simp
qed

theorem huffman_optimal_witness:
  "[97, 97, 97, 98, 98, 99 :: byte] \<noteq> [] \<and>
   prefix_free_code [97, 97, 97, 98, 98, 99]
     (\<lambda>s. if s = 97 then ''00'' else if s = 98 then ''01'' else ''1'') \<and>
   weighted_cost [97, 97, 97, 98, 98, 99]
     (\<lambda>s. if s = 97 then ''00'' else if s = 98 then ''01'' else ''1'') = 11 \<and>
   (\<exists>root. build_huffman_tree_from_bytes [97, 97, 97, 98, 98, 99] = Inr (Some root) \<and>
      weighted_cost [97, 97, 97, 98, 98, 99] (table_code (build_codes_from_tree (Some root)))
        \<le> 11)"
proof -
  let ?S = "[97, 97, 97, 98, 98, 99 :: byte]"
  let ?C = "\<lambda>s :: byte. if s = 97 then ''00'' else if s = 98 then ''01'' else ''1''"
  have h1: "?S \<noteq> []" by simp
  have h2: "prefix_free_code ?S ?C"
    by (simp add: prefix_free_code_def bin_def)
  have h3: "weighted_cost ?S ?C = 11"
    by (simp add: weighted_cost_def)
  from huffman_optimal [of ?S ?C] h1 h2 h3 show ?thesis by auto
qed

section \<open>The ON/OFF controller of tclab_onoff_7days.py\<close>

text \<open>
  \<^verbatim>\<open>onoff_control(temp, setpoint, deadband, last_val)\<close>: a controller with hysteresis.
  The temperatures are numbers that are only added, subtracted and compared, so the
  model leaves their type open (any type with \<open>+\<close>, \<open>-\<close> and \<open><\<close>); the actuator value
  is an integer. \<^verbatim>\<open>temp > x\<close> is \<open>x < temp\<close>.
\<close>

definition onoff_control :: "'a::{plus,minus,ord} \<Rightarrow> 'a \<Rightarrow> 'a \<Rightarrow> int \<Rightarrow> int" where
  "onoff_control temp setpoint deadband last_val =
     (if temp < setpoint - deadband then 100
      else if setpoint + deadband < temp then 0
      else last_val)"

section \<open>Properties of the controller\<close>



end
